theory Spec2Isabelle
  imports Main "HOL-Library.Sublist"
begin

section \<open>Comment rows and comment dictionaries\<close>

text \<open>
  The parser of \<^verbatim>\<open>parse_hn_comments.py\<close> reads a discussion page through markup queries
  (\<^verbatim>\<open>row.find\<close>, \<^verbatim>\<open>row.get\<close>). A row is modelled by what these queries return for it.
  The indentation marker is what \<^verbatim>\<open>int(indent_img.get('width', 0))\<close> meets: no marker
  (no \<^verbatim>\<open>td.ind\<close>, no image in it, or a missing or empty \<^verbatim>\<open>width\<close>), an integer, or a
  \<^verbatim>\<open>width\<close> that \<^verbatim>\<open>int\<close> rejects with ValueError.
\<close>

datatype marker = NoMarker | Width int | BadWidth string

record row =
  row_id :: string
  ind :: marker
  hnuser :: "string option"
  age :: "(string option \<times> string) option"
  commtext :: "string option"

text \<open>
  \<^verbatim>\<open>row_id\<close> is \<^verbatim>\<open>row.get('id', '')\<close>; \<^verbatim>\<open>hnuser\<close> the text of the \<^verbatim>\<open>a.hnuser\<close> element when
  there is one; \<^verbatim>\<open>age\<close> the \<^verbatim>\<open>title\<close> attribute (when present) and the text of
  \<^verbatim>\<open>span.age\<close>; \<^verbatim>\<open>commtext\<close> the text of \<^verbatim>\<open>div.commtext\<close> after the link and reply-span
  normalisation, when the container exists.
\<close>

datatype firecrawl_kind = APIKeyError | ConnectionError | ResponseError

datatype exn =
    ValueError string
  | RequestException string
  | FirecrawlError firecrawl_kind string
  | TypeError string
  | AttributeError string
  | IndexError string
  | NotAForest

text \<open>
  The exceptions are those that derive from \<^verbatim>\<open>Exception\<close>, each with its message;
  \<^verbatim>\<open>FirecrawlError\<close> carries which of its three subclasses was raised. \<^verbatim>\<open>NotAForest\<close> is no
  Python exception: it marks an object graph that cannot be read as a finite nested value
  (a cycle or a dangling reference). Lemma \<open>build_Inr\<close> shows that the builder never
  produces one.
\<close>

record comment =
  c_id :: string
  c_author :: string
  c_time :: string
  c_text :: string
  indent_level :: int

text \<open>
  The dictionary \<^verbatim>\<open>comment\<close> of the builder has the five scalar keys above and the key
  \<^verbatim>\<open>'replies'\<close>, a list that is mutated through the references kept on the stack. The
  dictionaries therefore live in a store: an address is the index of a cell, and a
  \<^verbatim>\<open>replies\<close> list holds addresses.
\<close>

record cell =
  dict :: comment
  replies :: "nat list"

record builder =
  heap :: "cell list"
  all_comments :: "nat list"
  comment_stack :: "nat list"

datatype node = Node (label: comment) (kids: "node list")

subsection \<open>Field extraction\<close>

definition get_indent_level :: "row \<Rightarrow> exn + int" where
  "get_indent_level r =
     (case ind r of
        NoMarker \<Rightarrow> Inr 0
      | Width w \<Rightarrow> Inr (w div 40)
      | BadWidth s \<Rightarrow> Inl (ValueError s))"

definition get_author :: "row \<Rightarrow> string" where
  "get_author r = (case hnuser r of Some a \<Rightarrow> a | None \<Rightarrow> ''[deleted]'')"

definition get_time :: "row \<Rightarrow> string" where
  "get_time r =
     (case age r of
        Some (Some title, txt) \<Rightarrow> title
      | Some (None, txt) \<Rightarrow> txt
      | None \<Rightarrow> ''N/A'')"

definition get_text :: "row \<Rightarrow> string" where
  "get_text r = (case commtext r of Some t \<Rightarrow> t | None \<Rightarrow> ''[deleted]'')"

definition make_comment :: "row \<Rightarrow> int \<Rightarrow> comment" where
  "make_comment r lvl =
     \<lparr>c_id = row_id r, c_author = get_author r, c_time = get_time r,
      c_text = get_text r, indent_level = lvl\<rparr>"

subsection \<open>The depth stack\<close>

text \<open>Python's \<^verbatim>\<open>xs[:k]\<close>: a negative \<^verbatim>\<open>k\<close> counts from the end.\<close>

definition slice_to :: "int \<Rightarrow> 'a list \<Rightarrow> 'a list" where
  "slice_to k xs = (if 0 \<le> k then take (nat k) xs else take (length xs - nat (- k)) xs)"

definition append_reply :: "nat \<Rightarrow> nat \<Rightarrow> cell list \<Rightarrow> cell list" where
  "append_reply p a h = h[p := (h ! p)\<lparr>replies := replies (h ! p) @ [a]\<rparr>]"

text \<open>
  One pass of the loop body after the fields are read: the new dictionary is allocated
  at the next free address, the stack is cut to the indentation level, and the
  dictionary is appended to the top-level list or to the replies of the dictionary on
  top of the stack; with an empty stack nothing refers to it.
\<close>

definition place :: "comment \<Rightarrow> builder \<Rightarrow> builder" where
  "place c st =
     (let a = length (heap st);
          h = heap st @ [\<lparr>dict = c, replies = []\<rparr>];
          stk = slice_to (indent_level c) (comment_stack st)
      in if indent_level c = 0
         then \<lparr>heap = h, all_comments = all_comments st @ [a], comment_stack = [a]\<rparr>
         else if stk \<noteq> []
         then \<lparr>heap = append_reply (last stk) a h, all_comments = all_comments st,
               comment_stack = stk @ [a]\<rparr>
         else \<lparr>heap = h, all_comments = all_comments st, comment_stack = stk\<rparr>)"

definition step :: "row \<Rightarrow> builder \<Rightarrow> exn + builder" where
  "step r st =
     (case get_indent_level r of
        Inl e \<Rightarrow> Inl e
      | Inr lvl \<Rightarrow> Inr (place (make_comment r lvl) st))"

fun run :: "row list \<Rightarrow> builder \<Rightarrow> exn + builder" where
  "run [] st = Inr st"
| "run (r # rs) st = (case step r st of Inl e \<Rightarrow> Inl e | Inr st' \<Rightarrow> run rs st')"

definition init :: builder where
  "init = \<lparr>heap = [], all_comments = [], comment_stack = []\<rparr>"

subsection \<open>The returned value\<close>

text \<open>
  The function returns \<^verbatim>\<open>all_comments\<close>: a list of references. Its value as nested
  dictionaries is read off the store by following the references; the fuel bounds the
  nesting, and \<open>None\<close> means that it did not suffice or that an address is dangling.
\<close>

fun reify :: "nat \<Rightarrow> cell list \<Rightarrow> nat \<Rightarrow> node option" where
  "reify 0 h a = None"
| "reify (Suc n) h a =
     (if a < length h
      then map_option (Node (dict (h ! a))) (those (map (reify n h) (replies (h ! a))))
      else None)"

definition forest_of :: "builder \<Rightarrow> node list option" where
  "forest_of st = those (map (reify (length (heap st)) (heap st)) (all_comments st))"

definition build_nested_structure :: "row list \<Rightarrow> exn + node list" where
  "build_nested_structure rows =
     (case run rows init of
        Inl e \<Rightarrow> Inl e
      | Inr st \<Rightarrow> (case forest_of st of Some f \<Rightarrow> Inr f | None \<Rightarrow> Inl NotAForest))"

section \<open>Invariants of the builder and depth sequences\<close>

definition new_cell :: "comment \<Rightarrow> cell" where
  "new_cell c = \<lparr>dict = c, replies = []\<rparr>"

definition heap_ok :: "builder \<Rightarrow> bool" where
  "heap_ok st = ((\<forall>a \<in> set (all_comments st). a < length (heap st)) \<and>
            (\<forall>a \<in> set (comment_stack st). a < length (heap st)) \<and>
            (\<forall>p < length (heap st). \<forall>c \<in> set (replies (heap st ! p)). p < c \<and> c < length (heap st)))"

fun fits :: "int \<Rightarrow> int list \<Rightarrow> bool" where
  "fits k [] = True"
| "fits k (d # ds) = (0 \<le> d \<and> d \<le> k \<and> fits (d + 1) ds)"

fun gentle :: "int list \<Rightarrow> bool" where
  "gentle (a # b # ds) = (b \<le> a + 1 \<and> gentle (b # ds))"
| "gentle ds = True"

definition depth_incrementing :: "int list \<Rightarrow> bool" where
  "depth_incrementing ds =
     (list_all (\<lambda>d. 0 \<le> d) ds \<and> (case ds of [] \<Rightarrow> True | d # ds' \<Rightarrow> d = 0) \<and> gentle ds)"

definition depths_ok :: "builder \<Rightarrow> bool" where
  "depths_ok st =
     ((\<forall>i < length (comment_stack st).
         indent_level (dict (heap st ! (comment_stack st ! i))) = int i) \<and>
      (\<forall>p < length (heap st). \<forall>x \<in> set (replies (heap st ! p)).
         indent_level (dict (heap st ! x)) = indent_level (dict (heap st ! p)) + 1))"

fun at_depth :: "int \<Rightarrow> node \<Rightarrow> bool" where
  "at_depth d (Node c ks) = (indent_level c = d \<and> list_all (at_depth (d + 1)) ks)"

definition roots_zero :: "builder \<Rightarrow> bool" where
  "roots_zero st = (\<forall>a \<in> set (all_comments st). indent_level (dict (heap st ! a)) = 0)"

fun labels :: "node \<Rightarrow> comment list" where
  "labels (Node c ks) = c # concat (map labels ks)"

definition comments_of :: "row list \<Rightarrow> int list \<Rightarrow> comment list" where
  "comments_of rows ds = map (\<lambda>(r, d). make_comment r d) (zip rows ds)"

fun child_depths :: "node \<Rightarrow> bool" where
  "child_depths (Node c ks) =
     list_all (\<lambda>k. indent_level (label k) = indent_level c + 1 \<and> child_depths k) ks"

definition tree_invariant :: "node list \<Rightarrow> bool" where
  "tree_invariant f = list_all (\<lambda>t. indent_level (label t) = 0 \<and> child_depths t) f"

definition sample_row :: "string \<Rightarrow> marker \<Rightarrow> row" where
  "sample_row i m =
     \<lparr>row_id = i, ind = m, hnuser = Some ''pg'', age = Some (None, ''1 hour ago''),
      commtext = Some ''hello''\<rparr>"

definition sample_comment :: "string \<Rightarrow> int \<Rightarrow> comment" where
  "sample_comment i d =
     \<lparr>c_id = i, c_author = ''pg'', c_time = ''1 hour ago'', c_text = ''hello'',
      indent_level = d\<rparr>"

definition ordered :: "builder \<Rightarrow> bool" where
  "ordered st =
     (sorted_wrt (<) (all_comments st) \<and>
      (\<forall>p < length (heap st). sorted_wrt (<) (replies (heap st ! p))))"

fun nodes_of :: "node \<Rightarrow> node list" where
  "nodes_of (Node c ks) = Node c ks # concat (map nodes_of ks)"

definition unreferenced :: "nat \<Rightarrow> builder \<Rightarrow> bool" where
  "unreferenced a st =
     (a \<notin> set (all_comments st) \<and>
      (\<forall>p < length (heap st). a \<notin> set (replies (heap st ! p))))"

inductive_set reach :: "cell list \<Rightarrow> nat list \<Rightarrow> nat set" for h :: "cell list" and roots :: "nat list" where
  root: "a \<in> set roots \<Longrightarrow> a \<in> reach h roots"
| kid: "p \<in> reach h roots \<Longrightarrow> p < length h \<Longrightarrow> x \<in> set (replies (h ! p)) \<Longrightarrow> x \<in> reach h roots"

definition stack_attached :: "builder \<Rightarrow> bool" where
  "stack_attached st = (set (comment_stack st) \<subseteq> reach (heap st) (all_comments st))"

definition deleted_row :: "string \<Rightarrow> marker \<Rightarrow> row" where
  "deleted_row i m =
     \<lparr>row_id = i, ind = m, hnuser = None, age = Some (None, ''2 hours ago''),
      commtext = None\<rparr>"

definition deleted_comment :: "string \<Rightarrow> int \<Rightarrow> comment" where
  "deleted_comment i d =
     \<lparr>c_id = i, c_author = ''[deleted]'', c_time = ''2 hours ago'', c_text = ''[deleted]'',
      indent_level = d\<rparr>"

section \<open>Strings as Python computes them\<close>

text \<open>
  Strings are byte lists. \<^verbatim>\<open>split s sep\<close> is \<^verbatim>\<open>s.split(sep)\<close> for a non-empty separator
  (the sources only split at constants), \<^verbatim>\<open>contains sub s\<close> is \<^verbatim>\<open>sub in s\<close>, \<^verbatim>\<open>join\<close> is
  \<^verbatim>\<open>sep.join\<close>, \<^verbatim>\<open>str_nat\<close> is \<^verbatim>\<open>str\<close> of a non-negative integer and \<^verbatim>\<open>spaces n\<close> is
  \<^verbatim>\<open>"  " * n\<close>.
\<close>

definition newline :: char where
  "newline = CHR 0x0A"

fun split_acc :: "string \<Rightarrow> string \<Rightarrow> string \<Rightarrow> string list" where
  "split_acc sep acc [] = [rev acc]"
| "split_acc sep acc (c # cs) =
     (if sep \<noteq> [] \<and> prefix sep (c # cs)
      then rev acc # split_acc sep [] (drop (length sep - 1) cs)
      else split_acc sep (c # acc) cs)"

definition split :: "string \<Rightarrow> string \<Rightarrow> string list" where
  "split s sep = split_acc sep [] s"

fun contains :: "string \<Rightarrow> string \<Rightarrow> bool" where
  "contains sub [] = (sub = [])"
| "contains sub (c # cs) = (prefix sub (c # cs) \<or> contains sub cs)"

definition startswith :: "string \<Rightarrow> string \<Rightarrow> bool" where
  "startswith s p = prefix p s"

fun join :: "string \<Rightarrow> string list \<Rightarrow> string" where
  "join sep [] = []"
| "join sep [x] = x"
| "join sep (x # y # ys) = x @ sep @ join sep (y # ys)"

definition digit :: "nat \<Rightarrow> char" where
  "digit n = ''0123456789'' ! (n mod 10)"

function str_nat :: "nat \<Rightarrow> string" where
  "str_nat n = (if n < 10 then [digit n] else str_nat (n div 10) @ [digit n])"
  by pat_completeness auto
termination
  by (relation "measure id") auto

definition spaces :: "nat \<Rightarrow> string" where
  "spaces indent = concat (replicate indent ''  '')"

section \<open>The page parser\<close>

text \<open>
  \<^verbatim>\<open>parse_hn_comments\<close> fetches a page and queries it. The transport and the markup parser
  are a parameter \<^verbatim>\<open>fetch\<close> from the URL to an exception or to what the queries of
  \<^verbatim>\<open>extract_story_info\<close> and \<^verbatim>\<open>extract_comments\<close> find in the page. The first loop of
  \<^verbatim>\<open>extract_comments\<close> builds a list that is never used; it is kept because it parses the
  widths first.
\<close>

record subtext_el =
  score :: "string option"
  sub_hnuser :: "string option"
  sub_age :: "(string option \<times> string) option"

record page =
  pg_title :: "(string \<times> string option) option"
  pg_subtext :: "subtext_el option"
  pg_rows :: "row list"

record story_info =
  s_title :: "string option"
  s_url :: "string option"
  s_points :: "string option"
  s_author :: "string option"
  s_time :: "string option"

record hn_result =
  story :: story_info
  comments :: "node list"
  total_comments :: nat

definition extract_story_info :: "page \<Rightarrow> story_info" where
  "extract_story_info pg =
     \<lparr>s_title = map_option fst (pg_title pg),
      s_url = map_option (\<lambda>(t, href). case href of Some u \<Rightarrow> u | None \<Rightarrow> []) (pg_title pg),
      s_points = map_option (\<lambda>sb. case score sb of Some s \<Rightarrow> s | None \<Rightarrow> ''N/A'')
                   (pg_subtext pg),
      s_author = map_option (\<lambda>sb. case sub_hnuser sb of Some s \<Rightarrow> s | None \<Rightarrow> ''N/A'')
                   (pg_subtext pg),
      s_time = (case pg_subtext pg of
                  None \<Rightarrow> None
                | Some sb \<Rightarrow> (case sub_age sb of
                               None \<Rightarrow> None
                             | Some (Some title, txt) \<Rightarrow> Some title
                             | Some (None, txt) \<Rightarrow> Some txt))\<rparr>"

fun first_pass :: "row list \<Rightarrow> comment list \<Rightarrow> exn + comment list" where
  "first_pass [] acc = Inr acc"
| "first_pass (r # rs) acc =
     (case get_indent_level r of
        Inl e \<Rightarrow> Inl e
      | Inr lvl \<Rightarrow>
          (if commtext r = None then first_pass rs acc
           else first_pass rs (if lvl = 0 then acc @ [make_comment r lvl] else acc)))"

definition extract_comments :: "row list \<Rightarrow> exn + node list" where
  "extract_comments rows =
     (case first_pass rows [] of
        Inl e \<Rightarrow> Inl e
      | Inr top_level \<Rightarrow> build_nested_structure rows)"

definition parse_hn_comments :: "(string \<Rightarrow> exn + page) \<Rightarrow> string \<Rightarrow> exn + hn_result" where
  "parse_hn_comments fetch item_id =
     (case fetch (''https://news.ycombinator.com/item?id='' @ item_id) of
        Inl e \<Rightarrow> Inl e
      | Inr pg \<Rightarrow>
          (case extract_comments (pg_rows pg) of
             Inl e \<Rightarrow> Inl e
           | Inr cs \<Rightarrow>
               Inr \<lparr>story = extract_story_info pg, comments = cs,
                    total_comments = length cs\<rparr>))"

fun count_nodes :: "node \<Rightarrow> nat" where
  "count_nodes (Node c ks) = 1 + sum_list (map count_nodes ks)"

definition sample_page :: "row list \<Rightarrow> page" where
  "sample_page rs =
     \<lparr>pg_title = Some (''A story'', Some ''https://example.com/a''),
      pg_subtext = Some \<lparr>score = Some ''10 points'', sub_hnuser = Some ''dang'',
                         sub_age = Some (None, ''3 hours ago'')\<rparr>,
      pg_rows = rs\<rparr>"

definition sample_story :: story_info where
  "sample_story =
     \<lparr>s_title = Some ''A story'', s_url = Some ''https://example.com/a'',
      s_points = Some ''10 points'', s_author = Some ''dang'', s_time = Some ''3 hours ago''\<rparr>"

section \<open>The compact renderers\<close>

text \<open>
  \<^verbatim>\<open>format_comment_llm\<close> (server.py) returns the lines joined by newlines;
  \<^verbatim>\<open>print_comment_llm\<close> (parse_hn_comments.py) prints them, and is modelled by the list of
  the strings printed. \<^verbatim>\<open>walk\<close> lists the comments of a tree in document order with their
  depth in the tree, and \<^verbatim>\<open>block_llm\<close> is the header line and the body lines of one comment.
\<close>

definition header_llm :: "comment \<Rightarrow> nat \<Rightarrow> string" where
  "header_llm c indent =
     spaces indent @ (if indent > 0 then ''REPLY'' else ''COMMENT'') @ '' ['' @ c_author c @
     '' @ '' @ c_time c @ ''] ID: '' @ c_id c"

definition body_llm :: "comment \<Rightarrow> nat \<Rightarrow> string list" where
  "body_llm c indent = map (\<lambda>line. spaces indent @ line) (split (c_text c) [newline])"


fun print_comment_llm :: "node \<Rightarrow> nat \<Rightarrow> string list" where
  "print_comment_llm (Node c ks) indent =
     [header_llm c indent] @ body_llm c indent @
     (if indent = 0 \<and> ks \<noteq> [] then [[]] else []) @
     concat (map (\<lambda>k. print_comment_llm k (indent + 1)) ks)"





section \<open>The article scraper\<close>

text \<open>
  A response of the scraping service is a JSON value as \<^verbatim>\<open>response.json()\<close> decodes it
  (numbers are integers here). \<^verbatim>\<open>py_in\<close>, \<^verbatim>\<open>py_getitem\<close> and \<^verbatim>\<open>py_keys\<close> are Python's
  \<^verbatim>\<open>in\<close>, \<^verbatim>\<open>[...]\<close> and \<^verbatim>\<open>.keys()\<close> with a string key on such a value, with the
  exceptions they raise; \<^verbatim>\<open>py_repr\<close> and \<^verbatim>\<open>py_str\<close> are \<^verbatim>\<open>repr\<close> and \<^verbatim>\<open>str\<close> (bytes above
  127 are taken as printable), \<^verbatim>\<open>truthy\<close> is the truth value.
\<close>

datatype json =
    JNull
  | JBool bool
  | JNum int
  | JStr string
  | JArr "json list"
  | JObj "(string \<times> json) list"

definition str_int :: "int \<Rightarrow> string" where
  "str_int i = (if i < 0 then ''-'' @ str_nat (nat (- i)) else str_nat (nat i))"

definition hex2 :: "nat \<Rightarrow> string" where
  "hex2 n = [''0123456789abcdef'' ! ((n div 16) mod 16), ''0123456789abcdef'' ! (n mod 16)]"

definition escape_char :: "char \<Rightarrow> char \<Rightarrow> string" where
  "escape_char q c =
     (if c = CHR 0x5C then [CHR 0x5C, CHR 0x5C]
      else if c = q then [CHR 0x5C, q]
      else if c = CHR 0x0A then [CHR 0x5C, CHR ''n'']
      else if c = CHR 0x0D then [CHR 0x5C, CHR ''r'']
      else if c = CHR 0x09 then [CHR 0x5C, CHR ''t'']
      else if of_char c < (32::nat) \<or> of_char c = (127::nat)
      then [CHR 0x5C, CHR ''x''] @ hex2 (of_char c)
      else [c])"

definition py_repr_str :: "string \<Rightarrow> string" where
  "py_repr_str s =
     (let q = (if CHR 0x27 \<in> set s \<and> CHR 0x22 \<notin> set s then CHR 0x22 else CHR 0x27)
      in [q] @ concat (map (escape_char q) s) @ [q])"

primrec py_repr :: "json \<Rightarrow> string" where
  "py_repr JNull = ''None''"
| "py_repr (JBool b) = (if b then ''True'' else ''False'')"
| "py_repr (JNum i) = str_int i"
| "py_repr (JStr s) = py_repr_str s"
| "py_repr (JArr xs) = ''['' @ join '', '' (map py_repr xs) @ '']''"
| "py_repr (JObj kvs) =
     ''{'' @ join '', '' (map (\<lambda>kv. py_repr_str (fst kv) @ '': '' @ snd kv)
                            (map (map_prod id py_repr) kvs)) @ ''}''"

definition py_str :: "json \<Rightarrow> string" where
  "py_str v = (case v of JStr s \<Rightarrow> s | _ \<Rightarrow> py_repr v)"

fun truthy :: "json \<Rightarrow> bool" where
  "truthy JNull = False"
| "truthy (JBool b) = b"
| "truthy (JNum i) = (i \<noteq> 0)"
| "truthy (JStr s) = (s \<noteq> [])"
| "truthy (JArr xs) = (xs \<noteq> [])"
| "truthy (JObj kvs) = (kvs \<noteq> [])"

fun py_in :: "string \<Rightarrow> json \<Rightarrow> exn + bool" where
  "py_in k (JObj kvs) = Inr (k \<in> set (map fst kvs))"
| "py_in k (JArr xs) = Inr (JStr k \<in> set xs)"
| "py_in k (JStr s) = Inr (contains k s)"
| "py_in k JNull = Inl (TypeError ''argument of type 'NoneType' is not iterable'')"
| "py_in k (JBool b) = Inl (TypeError ''argument of type 'bool' is not iterable'')"
| "py_in k (JNum i) = Inl (TypeError ''argument of type 'int' is not iterable'')"

fun py_getitem :: "json \<Rightarrow> string \<Rightarrow> exn + json" where
  "py_getitem (JObj kvs) k =
     (case map_of kvs k of Some v \<Rightarrow> Inr v | None \<Rightarrow> Inl (IndexError (py_repr_str k)))"
| "py_getitem (JArr xs) k =
     Inl (TypeError ''list indices must be integers or slices, not str'')"
| "py_getitem (JStr s) k = Inl (TypeError (''string indices must be integers, not 'str'' @ [CHR 0x27]))"
| "py_getitem v k = Inl (TypeError ''object is not subscriptable'')"

fun py_keys :: "json \<Rightarrow> exn + string list" where
  "py_keys (JObj kvs) = Inr (map fst kvs)"
| "py_keys (JArr xs) = Inl (AttributeError ([CHR 0x27] @ ''list' object has no attribute 'keys'' @ [CHR 0x27]))"
| "py_keys (JStr s) = Inl (AttributeError ([CHR 0x27] @ ''str' object has no attribute 'keys'' @ [CHR 0x27]))"
| "py_keys v = Inl (AttributeError (''object has no attribute 'keys'' @ [CHR 0x27]))"

definition get_markdown :: "json \<Rightarrow> exn + json" where
  "get_markdown data =
     (case py_in ''data'' data of
        Inl e \<Rightarrow> Inl e
      | Inr False \<Rightarrow>
          Inl (FirecrawlError ResponseError
                 ([CHR 0x27] @ ''data' field not found in response. Response: '' @ py_repr data))
      | Inr True \<Rightarrow>
          (case py_getitem data ''data'' of
             Inl e \<Rightarrow> Inl e
           | Inr d \<Rightarrow>
               (case py_in ''markdown'' d of
                  Inl e \<Rightarrow> Inl e
                | Inr False \<Rightarrow>
                    (case py_keys d of
                       Inl e \<Rightarrow> Inl e
                     | Inr available_fields \<Rightarrow>
                         Inl (FirecrawlError ResponseError
                                ([CHR 0x27] @ ''markdown' field not found in data. Available fields: '' @
                                 py_repr (JArr (map JStr available_fields)))))
                | Inr True \<Rightarrow> py_getitem d ''markdown'')))"

datatype http =
    HTimeout
  | HConnectionError string
  | HHTTPError string nat "json option" string
  | HRequestException string
  | HResponse "json option" string string

text \<open>
  What \<^verbatim>\<open>requests.post\<close> followed by \<^verbatim>\<open>raise_for_status\<close> and \<^verbatim>\<open>response.json()\<close> comes to:
  a timeout; a connection error, an HTTP error status or another request exception, each
  with its message (the HTTP error also with the status code, the decoded error body when
  it decodes, and the response text); or a response with its decoded body when it
  decodes, the decoder's message and the response text.
\<close>

definition scrape_url ::
  "string option \<Rightarrow> (string \<Rightarrow> string \<Rightarrow> http) \<Rightarrow> string \<Rightarrow> string option \<Rightarrow> exn + json" where
  "scrape_url env_key post target_url api_key =
     (let key = (case api_key of None \<Rightarrow> env_key | Some k \<Rightarrow> Some k) in
      case key of
        None \<Rightarrow>
          Inl (FirecrawlError APIKeyError
            ''FIRECRAWL_API_KEY not found. Please set it in .env file or pass as parameter'')
      | Some k \<Rightarrow>
          if k = [] then
            Inl (FirecrawlError APIKeyError
              ''FIRECRAWL_API_KEY not found. Please set it in .env file or pass as parameter'')
          else
            (case post target_url k of
               HResponse (Some data) msg body \<Rightarrow> Inr data
             | HResponse None msg body \<Rightarrow>
                 Inl (FirecrawlError ResponseError
                   (''Failed to parse JSON response: '' @ msg @ [newline] @
                    ''Response text: '' @ body))
             | HTimeout \<Rightarrow>
                 Inl (FirecrawlError ConnectionError ''Request timed out after 30 seconds'')
             | HConnectionError msg \<Rightarrow>
                 Inl (FirecrawlError ConnectionError (''Failed to connect to the API: '' @ msg))
             | HHTTPError msg status details body \<Rightarrow>
                 Inl (FirecrawlError ResponseError
                   (''HTTP error occurred: '' @ msg @ [newline] @ ''Status code: '' @
                    str_nat status @
                    (case details of
                       Some error_data \<Rightarrow> [newline] @ ''Error details: '' @ py_repr error_data
                     | None \<Rightarrow> [newline] @ ''Response text: '' @ body)))
             | HRequestException msg \<Rightarrow>
                 Inl (FirecrawlError ConnectionError (''Request error: '' @ msg))))"

definition is_firecrawl :: "exn \<Rightarrow> bool" where
  "is_firecrawl e = (case e of FirecrawlError k m \<Rightarrow> True | _ \<Rightarrow> False)"

fun str_exn :: "exn \<Rightarrow> string" where
  "str_exn (ValueError m) = m"
| "str_exn (RequestException m) = m"
| "str_exn (FirecrawlError k m) = m"
| "str_exn (TypeError m) = m"
| "str_exn (AttributeError m) = m"
| "str_exn (IndexError m) = m"
| "str_exn NotAForest = []"

section \<open>The command line and the tool server\<close>

text \<open>
  \<^verbatim>\<open>isdigit\<close> and \<^verbatim>\<open>strip\<close> are Python's on ASCII strings. \<^verbatim>\<open>index xs i\<close> is \<^verbatim>\<open>xs[i]\<close> for
  a non-negative \<^verbatim>\<open>i\<close>, with its IndexError. A function that prints returns what it
  printed, also when it then raises.
\<close>

definition isdigit :: "string \<Rightarrow> bool" where
  "isdigit s = (s \<noteq> [] \<and> list_all (\<lambda>c. c \<in> set ''0123456789'') s)"

definition is_space :: "char \<Rightarrow> bool" where
  "is_space c =
     (c \<in> set [CHR 0x20, CHR 0x09, CHR 0x0A, CHR 0x0B, CHR 0x0C, CHR 0x0D,
                 CHR 0x1C, CHR 0x1D, CHR 0x1E, CHR 0x1F])"

definition strip :: "string \<Rightarrow> string" where
  "strip s = rev (dropWhile is_space (rev (dropWhile is_space s)))"

definition index :: "'a list \<Rightarrow> nat \<Rightarrow> exn + 'a" where
  "index xs i = (if i < length xs then Inr (xs ! i) else Inl (IndexError ''list index out of range''))"

text \<open>
  The expression \<^verbatim>\<open>hn_url.split('item?id=')[1].split('&')[0]\<close> and its guard, as cli.py
  and server.py both have them; cli.py strips a bare identifier, server.py does not.
\<close>

definition id_from_url :: "string \<Rightarrow> exn + string" where
  "id_from_url hn_url =
     (case index (split hn_url ''item?id='') 1 of
        Inl e \<Rightarrow> Inl e
      | Inr rest \<Rightarrow> index (split rest ''&'') 0)"

definition extract_item_id :: "string \<Rightarrow> exn + string" where
  "extract_item_id hn_url =
     (if contains ''item?id='' hn_url then id_from_url hn_url else Inr hn_url)"

text \<open>The two calls under the inner \<^verbatim>\<open>try\<close>: the scrape, then the extraction of the markdown.\<close>

definition fetch_article ::
  "(string \<Rightarrow> exn + json) \<Rightarrow> (json \<Rightarrow> exn + json) \<Rightarrow> string \<Rightarrow> exn + json" where
  "fetch_article scrape markdown url =
     (case scrape url of Inl e \<Rightarrow> Inl e | Inr data \<Rightarrow> markdown data)"

record cli_result =
  hn_comments :: hn_result
  url_content :: json
  story_url :: "string option"
  error :: "string option"

definition story_get :: "string option \<Rightarrow> string" where
  "story_get v = (case v of Some s \<Rightarrow> s | None \<Rightarrow> ''N/A'')"

definition get_hn_content ::
  "(string \<Rightarrow> exn + hn_result) \<Rightarrow> (string \<Rightarrow> string option \<Rightarrow> exn + json) \<Rightarrow>
   string \<Rightarrow> string option \<Rightarrow> string list \<times> (exn + cli_result)" where
  "get_hn_content parse scrape hn_url api_key =
     (case (if contains ''item?id='' hn_url then id_from_url hn_url else Inr (strip hn_url)) of
        Inl e \<Rightarrow> ([], Inl e)
      | Inr item_id \<Rightarrow>
          if \<not> isdigit item_id
          then ([], Inl (ValueError (''Invalid HN item ID: '' @ item_id)))
          else
            let printed = [''Fetching HN comments for item '' @ item_id @ ''...''] in
            (case parse item_id of
               Inl e \<Rightarrow> (printed, Inl e)
             | Inr hn_data \<Rightarrow>
                 let url = (case s_url (story hn_data) of Some u \<Rightarrow> u | None \<Rightarrow> []) in
                 if url = [] then
                   (printed,
                    Inr \<lparr>hn_comments = hn_data, url_content = JNull, story_url = None,
                         error = Some ''No URL found in the HN story (might be a text post)''\<rparr>)
                 else if startswith url ''https://news.ycombinator.com'' then
                   (printed,
                    Inr \<lparr>hn_comments = hn_data, url_content = JNull, story_url = Some url,
                         error = Some ''Story links to HN itself (Ask HN, Show HN, etc.)''\<rparr>)
                 else
                   let printed2 = printed @ [''Fetching content from: '' @ url] in
                   (case fetch_article (\<lambda>u. scrape u api_key) get_markdown url of
                      Inl e \<Rightarrow>
                        if is_firecrawl e then
                          (printed2,
                           Inr \<lparr>hn_comments = hn_data, url_content = JNull,
                                story_url = Some url,
                                error = Some (''Failed to fetch URL content: '' @ str_exn e)\<rparr>)
                        else (printed2, Inl e)
                    | Inr markdown \<Rightarrow>
                        (printed2,
                         Inr \<lparr>hn_comments = hn_data, url_content = markdown,
                              story_url = Some url, error = None\<rparr>))))"

definition rule60 :: string where
  "rule60 = concat (replicate 60 [CHR 0xE2, CHR 0x94, CHR 0x80])"

definition bar80 :: string where
  "bar80 = replicate 80 (CHR ''='')"

definition warning_sign :: string where
  "warning_sign = [CHR 0xE2, CHR 0x9A, CHR 0xA0, CHR 0xEF, CHR 0xB8, CHR 0x8F]"

fun print_comment :: "node \<Rightarrow> nat \<Rightarrow> string list" where
  "print_comment (Node c ks) indent =
     [spaces indent @ rule60,
      spaces indent @ ''Author: '' @ c_author c,
      spaces indent @ ''Time: '' @ c_time c,
      spaces indent @ ''ID: '' @ c_id c,
      spaces indent @ ''Text:''] @
     map (\<lambda>line. spaces indent @ ''  '' @ line) (split (c_text c) [newline]) @
     (if ks \<noteq> []
      then [spaces indent @ ''Replies: '' @ str_nat (length ks)] @
           concat (map (\<lambda>k. print_comment k (indent + 1)) ks)
      else [])"

text \<open>\<^verbatim>\<open>enumerate(xs, 1)\<close> with the loop body \<^verbatim>\<open>f\<close>, the printed lines in order.\<close>

fun enumerate_from :: "nat \<Rightarrow> (nat \<Rightarrow> 'a \<Rightarrow> string list) \<Rightarrow> 'a list \<Rightarrow> string list" where
  "enumerate_from i f [] = []"
| "enumerate_from i f (x # xs) = f i x @ enumerate_from (i + 1) f xs"

definition compact_comments :: "node list \<Rightarrow> string list" where
  "compact_comments cs =
     enumerate_from 1 (\<lambda>i comment. [''COMMENT #'' @ str_nat i] @ print_comment_llm comment 0 @ [[]]) cs"

definition verbose_comments :: "node list \<Rightarrow> string list" where
  "verbose_comments cs =
     enumerate_from 1
       (\<lambda>i comment. [[newline] @ ''[Comment '' @ str_nat i @ '']''] @ print_comment comment 0) cs"

definition print_result :: "cli_result \<Rightarrow> bool \<Rightarrow> string list" where
  "print_result result compact =
     (let hn_data = hn_comments result; st = story hn_data in
      if compact then
        [''STORY: '' @ story_get (s_title st),
         ''URL: '' @ story_get (s_url st),
         ''AUTHOR: '' @ story_get (s_author st) @ '' | POINTS: '' @ story_get (s_points st) @
           '' | TIME: '' @ story_get (s_time st),
         ''TOTAL_COMMENTS: '' @ str_nat (total_comments hn_data),
         []] @
        (case error result of
           Some err \<Rightarrow> if err \<noteq> [] then [''WARNING: '' @ err, []] else []
         | None \<Rightarrow> []) @
        compact_comments (comments hn_data) @
        (if truthy (url_content result)
         then [bar80, ''URL CONTENT'', bar80, py_str (url_content result)]
         else [])
      else
        [bar80, ''HACKER NEWS STORY'', bar80,
         ''Title: '' @ story_get (s_title st),
         ''URL: '' @ story_get (s_url st),
         ''Author: '' @ story_get (s_author st),
         ''Points: '' @ story_get (s_points st),
         ''Time: '' @ story_get (s_time st),
         ''Total Comments: '' @ str_nat (total_comments hn_data),
         bar80,
         []] @
        (case error result of
           Some err \<Rightarrow> if err \<noteq> [] then [warning_sign @ ''  Warning: '' @ err, []] else []
         | None \<Rightarrow> []) @
        [''COMMENTS'', bar80] @
        verbose_comments (comments hn_data) @
        (if truthy (url_content result)
         then [[newline] @ bar80, ''URL CONTENT'', bar80, py_str (url_content result),
               [newline] @ bar80]
         else []))"

record process =
  stdout :: "string list"
  stderr :: "string list"
  exit_code :: nat

text \<open>
  \<^verbatim>\<open>main\<close> of cli.py after argument parsing. The traceback that the last handler prints
  on the error stream is left out.
\<close>

definition main ::
  "(string \<Rightarrow> exn + hn_result) \<Rightarrow> (string \<Rightarrow> string option \<Rightarrow> exn + json) \<Rightarrow>
   string \<Rightarrow> bool \<Rightarrow> string option \<Rightarrow> process" where
  "main parse scrape hn_url compact api_key =
     (case get_hn_content parse scrape hn_url api_key of
        (printed, Inr result) \<Rightarrow>
          \<lparr>stdout = printed @ print_result result compact, stderr = [],
           exit_code = (case error result of
                          Some err \<Rightarrow> if err \<noteq> [] then 2 else 0
                        | None \<Rightarrow> 0)\<rparr>
      | (printed, Inl e) \<Rightarrow>
          (case e of
             ValueError m \<Rightarrow> \<lparr>stdout = printed, stderr = [''Error: '' @ m], exit_code = 1\<rparr>
           | FirecrawlError k m \<Rightarrow>
               \<lparr>stdout = printed, stderr = [''Firecrawl Error: '' @ m], exit_code = 1\<rparr>
           | _ \<Rightarrow>
               \<lparr>stdout = printed, stderr = [''Unexpected error: '' @ str_exn e],
                exit_code = 1\<rparr>))"

datatype content = TextContent string





definition story_url_of :: "hn_result \<Rightarrow> string" where
  "story_url_of r = (case s_url (story r) of Some u \<Rightarrow> u | None \<Rightarrow> [])"

definition external :: "string \<Rightarrow> bool" where
  "external url = (url \<noteq> [] \<and> \<not> startswith url ''https://news.ycombinator.com'')"

text \<open>The item identifier that \<^verbatim>\<open>get_hn_content\<close> (cli.py) computes before validating it.\<close>

definition cli_item_id :: "string \<Rightarrow> exn + string" where
  "cli_item_id hn_url =
     (if contains ''item?id='' hn_url then id_from_url hn_url else Inr (strip hn_url))"

section \<open>Lemmas about the builder\<close>

lemma set_slice_to: "set (slice_to k xs) \<subseteq> set xs"
  by (auto simp: slice_to_def dest: in_set_takeD)

lemma place_root:
  "indent_level c = 0 \<Longrightarrow>
   place c st = \<lparr>heap = heap st @ [new_cell c], all_comments = all_comments st @ [length (heap st)],
                 comment_stack = [length (heap st)]\<rparr>"
  by (simp add: place_def Let_def new_cell_def)

lemma place_reply:
  "indent_level c \<noteq> 0 \<Longrightarrow> slice_to (indent_level c) (comment_stack st) \<noteq> [] \<Longrightarrow>
   place c st = \<lparr>heap = append_reply (last (slice_to (indent_level c) (comment_stack st)))
                             (length (heap st)) (heap st @ [new_cell c]),
                     all_comments = all_comments st,
                     comment_stack = slice_to (indent_level c) (comment_stack st) @ [length (heap st)]\<rparr>"
  by (simp add: place_def Let_def new_cell_def)

lemma place_drop:
  "indent_level c \<noteq> 0 \<Longrightarrow> slice_to (indent_level c) (comment_stack st) = [] \<Longrightarrow>
   place c st = \<lparr>heap = heap st @ [new_cell c], all_comments = all_comments st, comment_stack = []\<rparr>"
  by (simp add: place_def Let_def new_cell_def)

lemma length_append_reply: "length (append_reply p a h) = length h"
  by (simp add: append_reply_def)

lemma length_place: "length (heap (place c st)) = Suc (length (heap st))"
  by (simp add: place_def Let_def length_append_reply)

lemma replies_append_reply:
  "q < length h \<Longrightarrow>
   replies (append_reply p a h ! q) = (if q = p then replies (h ! p) @ [a] else replies (h ! q))"
  by (simp add: append_reply_def nth_list_update)

lemma dict_append_reply:
  "q < length h \<Longrightarrow> dict (append_reply p a h ! q) = dict (h ! q)"
  by (cases "p = q") (simp_all add: append_reply_def nth_list_update)

lemma replies_snoc:
  "replies ((h @ [new_cell c]) ! q) = (if q < length h then replies (h ! q) else replies ((h @ [new_cell c]) ! q))"
  by (simp add: nth_append)

lemma replies_new_cell: "replies (new_cell c) = []"
  by (simp add: new_cell_def)

lemma dict_new_cell: "dict (new_cell c) = c"
  by (simp add: new_cell_def)

lemma heap_ok_init: "heap_ok init"
  by (simp add: heap_ok_def init_def)

lemma last_slice_in_stack:
  "slice_to k xs \<noteq> [] \<Longrightarrow> last (slice_to k xs) \<in> set xs"
  using set_slice_to[of k xs] last_in_set[of "slice_to k xs"] by blast

text \<open>The replies of a cell after one placement.\<close>

lemma replies_place:
  assumes "q < length (heap st)"
  shows "replies (heap (place c st) ! q) =
     (if indent_level c \<noteq> 0 \<and> slice_to (indent_level c) (comment_stack st) \<noteq> [] \<and>
         q = last (slice_to (indent_level c) (comment_stack st))
      then replies (heap st ! q) @ [length (heap st)] else replies (heap st ! q))"
proof -
  have q: "q < length (heap st @ [new_cell c])" using assms by simp
  have old: "replies ((heap st @ [new_cell c]) ! q) = replies (heap st ! q)"
    using assms by (simp add: nth_append)
  show ?thesis
  proof (cases "indent_level c = 0")
    case True then show ?thesis by (simp add: place_root old)
  next
    case nz: False
    show ?thesis
    proof (cases "slice_to (indent_level c) (comment_stack st) = []")
      case True with nz show ?thesis by (simp add: place_drop old)
    next
      case False
      with nz old assms show ?thesis
        by (auto simp: place_reply replies_append_reply[OF q])
    qed
  qed
qed

lemma replies_place_new: 
  assumes "\<forall>a \<in> set (comment_stack st). a < length (heap st)"
  shows "replies (heap (place c st) ! length (heap st)) = []"
proof (cases "indent_level c = 0")
  case True then show ?thesis by (simp add: place_root replies_new_cell)
next
  case nz: False
  show ?thesis
  proof (cases "slice_to (indent_level c) (comment_stack st) = []")
    case True with nz show ?thesis by (simp add: place_drop replies_new_cell)
  next
    case False
    have "last (slice_to (indent_level c) (comment_stack st)) < length (heap st)"
      using last_slice_in_stack[OF False] assms by blast
    with nz False show ?thesis
      by (simp add: place_reply replies_append_reply replies_new_cell)
  qed
qed

lemma all_comments_place:
  "all_comments (place c st) =
     (if indent_level c = 0 then all_comments st @ [length (heap st)] else all_comments st)"
  by (simp add: place_def Let_def)

lemma set_stack_place:
  "set (comment_stack (place c st)) \<subseteq> insert (length (heap st)) (set (comment_stack st))"
  using set_slice_to[of "indent_level c" "comment_stack st"]
  by (auto simp: place_def Let_def)

lemma heap_ok_roots: "heap_ok st \<Longrightarrow> a \<in> set (all_comments st) \<Longrightarrow> a < length (heap st)"
  unfolding heap_ok_def by blast

lemma heap_ok_stack: "heap_ok st \<Longrightarrow> a \<in> set (comment_stack st) \<Longrightarrow> a < length (heap st)"
  unfolding heap_ok_def by blast

lemma heap_ok_replies:
  "heap_ok st \<Longrightarrow> p < length (heap st) \<Longrightarrow> x \<in> set (replies (heap st ! p)) \<Longrightarrow>
   p < x \<and> x < length (heap st)"
  unfolding heap_ok_def by blast

lemma dict_place:
  assumes "\<forall>a \<in> set (comment_stack st). a < length (heap st)" and q: "q \<le> length (heap st)"
  shows "dict (heap (place c st) ! q) = (if q < length (heap st) then dict (heap st ! q) else c)"
proof (cases "indent_level c \<noteq> 0 \<and> slice_to (indent_level c) (comment_stack st) \<noteq> []")
  case True
  then have "last (slice_to (indent_level c) (comment_stack st)) < length (heap st)"
    using last_slice_in_stack assms by blast
  with True q show ?thesis
    by (simp add: place_reply dict_append_reply nth_append dict_new_cell)
next
  case False
  with q show ?thesis
    by (cases "indent_level c = 0") (simp_all add: place_root place_drop nth_append dict_new_cell)
qed

lemma heap_ok_place:
  assumes "heap_ok st"
  shows "heap_ok (place c st)"
proof -
  let ?n = "length (heap st)"
  have stk: "\<forall>a \<in> set (comment_stack st). a < ?n" using assms heap_ok_stack by blast
  have rts: "\<forall>a \<in> set (all_comments st). a < ?n" using assms heap_ok_roots by blast
  have a: "\<forall>a \<in> set (all_comments (place c st)). a < Suc ?n"
    using rts by (auto simp: all_comments_place less_Suc_eq)
  have b: "\<forall>a \<in> set (comment_stack (place c st)). a < Suc ?n"
    using set_stack_place[of c st] stk by (auto simp: less_Suc_eq)
  have c: "\<forall>p < Suc ?n. \<forall>x \<in> set (replies (heap (place c st) ! p)). p < x \<and> x < Suc ?n"
  proof (intro allI impI ballI)
    fix p x assume p: "p < Suc ?n" and x: "x \<in> set (replies (heap (place c st) ! p))"
    show "p < x \<and> x < Suc ?n"
    proof (cases "p < ?n")
      case True
      with x have "x \<in> set (replies (heap st ! p)) \<or> x = ?n"
        by (auto simp: replies_place split: if_splits)
      then show ?thesis
      proof
        assume "x \<in> set (replies (heap st ! p))"
        from heap_ok_replies[OF assms True this] show ?thesis by simp
      next
        assume "x = ?n" with True show ?thesis by simp
      qed
    next
      case False
      with p have "p = ?n" by simp
      with x stk show ?thesis by (simp add: replies_place_new)
    qed
  qed
  show ?thesis unfolding heap_ok_def length_place using a b c by blast
qed

lemma run_append:
  "run (xs @ ys) st = (case run xs st of Inl e \<Rightarrow> Inl e | Inr st' \<Rightarrow> run ys st')"
  by (induction xs arbitrary: st) (simp_all split: sum.splits)

lemma step_Inr:
  "step r st = Inr st' \<Longrightarrow> \<exists>lvl. get_indent_level r = Inr lvl \<and> st' = place (make_comment r lvl) st"
  by (simp add: step_def split: sum.splits)

lemma run_Cons_Inr:
  "run (r # rs) st = Inr st' \<Longrightarrow>
   \<exists>lvl. get_indent_level r = Inr lvl \<and> run rs (place (make_comment r lvl) st) = Inr st'"
  by (simp add: step_def split: sum.splits)

lemma heap_ok_run: "heap_ok st \<Longrightarrow> run rows st = Inr st' \<Longrightarrow> heap_ok st'"
proof (induction rows arbitrary: st)
  case Nil then show ?case by simp
next
  case (Cons r rows)
  from run_Cons_Inr[OF Cons.prems(2)] obtain lvl where
    "run rows (place (make_comment r lvl) st) = Inr st'" by blast
  with Cons.IH heap_ok_place[OF Cons.prems(1)] show ?case by blast
qed

lemma length_run: "run rows st = Inr st' \<Longrightarrow> length (heap st') = length (heap st) + length rows"
proof (induction rows arbitrary: st)
  case Nil then show ?case by simp
next
  case (Cons r rows)
  from run_Cons_Inr[OF Cons.prems] obtain lvl where
    "run rows (place (make_comment r lvl) st) = Inr st'" by blast
  from Cons.IH[OF this] show ?case by (simp add: length_place)
qed

lemma those_map_Some:
  "(\<And>x. x \<in> set xs \<Longrightarrow> \<exists>y. f x = Some y) \<Longrightarrow> \<exists>ys. those (map f xs) = Some ys"
proof (induction xs)
  case Nil then show ?case by simp
next
  case (Cons x xs)
  then obtain y where "f x = Some y" by auto
  moreover from Cons obtain ys where "those (map f xs) = Some ys" by auto
  ultimately show ?case by simp
qed

lemma those_map_all2:
  "those (map f xs) = Some ys \<Longrightarrow> list_all2 (\<lambda>x y. f x = Some y) xs ys"
proof (induction xs arbitrary: ys)
  case Nil then show ?case by simp
next
  case (Cons x xs)
  then show ?case by (auto split: option.splits)
qed

lemma reify_Some:
  assumes ok: "\<forall>p < length h. \<forall>x \<in> set (replies (h ! p)). p < x \<and> x < length h"
  shows "a < length h \<Longrightarrow> length h \<le> a + n \<Longrightarrow> \<exists>t. reify n h a = Some t"
proof (induction n arbitrary: a)
  case 0 then show ?case by simp
next
  case (Suc n)
  have "\<exists>ys. those (map (reify n h) (replies (h ! a))) = Some ys"
  proof (rule those_map_Some)
    fix x assume "x \<in> set (replies (h ! a))"
    with ok Suc.prems have "a < x \<and> x < length h" by blast
    with Suc.prems have "x < length h" "length h \<le> x + n" by simp_all
    then show "\<exists>y. reify n h x = Some y" by (rule Suc.IH)
  qed
  with Suc.prems show ?case by auto
qed

lemma forest_of_Some: "heap_ok st \<Longrightarrow> \<exists>f. forest_of st = Some f"
  unfolding forest_of_def
proof (rule those_map_Some)
  fix x assume ok: "heap_ok st" and "x \<in> set (all_comments st)"
  then have x: "x < length (heap st)" by (rule heap_ok_roots)
  have r: "\<forall>p < length (heap st). \<forall>x \<in> set (replies (heap st ! p)). p < x \<and> x < length (heap st)"
    using ok heap_ok_replies by blast
  show "\<exists>y. reify (length (heap st)) (heap st) x = Some y"
    by (rule reify_Some[OF r x]) simp
qed

lemma gentle_fits:
  "list_all (\<lambda>d. 0 \<le> d) (d # ds) \<Longrightarrow> gentle (d # ds) \<Longrightarrow> d \<le> k \<Longrightarrow> fits k (d # ds)"
proof (induction ds arbitrary: d k)
  case Nil then show ?case by simp
next
  case (Cons e ds)
  from Cons.prems have a: "list_all (\<lambda>d. 0 \<le> d) (e # ds)" and b: "gentle (e # ds)"
    and c: "e \<le> d + 1" and d: "0 \<le> d" by simp_all
  have "fits (d + 1) (e # ds)" by (rule Cons.IH[OF a b c])
  with d Cons.prems(3) show ?case by simp
qed

lemma depth_incrementing_fits:
  assumes "depth_incrementing ds"
  shows "fits 0 ds"
proof (cases ds)
  case Nil then show ?thesis by simp
next
  case (Cons d ds')
  with assms have "list_all (\<lambda>d. 0 \<le> d) (d # ds')" "gentle (d # ds')" "d \<le> 0"
    by (auto simp: depth_incrementing_def)
  then have "fits 0 (d # ds')" by (rule gentle_fits)
  with Cons show ?thesis by simp
qed

lemma slice_to_nonneg: "0 \<le> k \<Longrightarrow> slice_to k xs = take (nat k) xs"
  by (simp add: slice_to_def)

lemma stack_place_fit:
  assumes "0 \<le> indent_level c" "indent_level c \<le> int (length (comment_stack st))"
  shows "comment_stack (place c st) = take (nat (indent_level c)) (comment_stack st) @ [length (heap st)]"
proof (cases "indent_level c = 0")
  case True then show ?thesis by (simp add: place_root)
next
  case False
  with assms have "take (nat (indent_level c)) (comment_stack st) \<noteq> []" by auto
  with False assms show ?thesis by (simp add: place_reply slice_to_nonneg)
qed

lemma last_take: "0 < k \<Longrightarrow> k \<le> length xs \<Longrightarrow> last (take k xs) = xs ! (k - 1)"
  by (cases xs) (simp_all add: last_conv_nth min_absorb2)

lemma depths_ok_place:
  assumes ok: "heap_ok st" and d: "depths_ok st"
    and lo: "0 \<le> indent_level c" and hi: "indent_level c \<le> int (length (comment_stack st))"
  shows "depths_ok (place c st)"
proof -
  let ?n = "length (heap st)"
  let ?k = "nat (indent_level c)"
  let ?h' = "heap (place c st)"
  have stk: "\<forall>a \<in> set (comment_stack st). a < ?n" using ok heap_ok_stack by blast
  have k: "?k \<le> length (comment_stack st)" using lo hi by simp
  have stack': "comment_stack (place c st) = take ?k (comment_stack st) @ [?n]"
    using lo hi by (rule stack_place_fit)
  have dold: "\<And>q. q < ?n \<Longrightarrow> dict (?h' ! q) = dict (heap st ! q)"
    using dict_place[OF stk] by simp
  have dnew: "dict (?h' ! ?n) = c"
    using dict_place[OF stk, of ?n c] by simp
  have sd: "\<And>i. i < length (comment_stack st) \<Longrightarrow>
              indent_level (dict (heap st ! (comment_stack st ! i))) = int i"
    using d unfolding depths_ok_def by blast
  have rd: "\<And>p x. p < ?n \<Longrightarrow> x \<in> set (replies (heap st ! p)) \<Longrightarrow>
              indent_level (dict (heap st ! x)) = indent_level (dict (heap st ! p)) + 1"
    using d unfolding depths_ok_def by blast
  have a: "\<forall>i < length (comment_stack (place c st)).
             indent_level (dict (?h' ! (comment_stack (place c st) ! i))) = int i"
  proof (intro allI impI)
    fix i assume "i < length (comment_stack (place c st))"
    with k have i: "i < Suc ?k" by (simp add: stack')
    show "indent_level (dict (?h' ! (comment_stack (place c st) ! i))) = int i"
    proof (cases "i < ?k")
      case True
      with k have e: "comment_stack (place c st) ! i = comment_stack st ! i"
        by (simp add: stack' nth_append)
      from True k have il: "i < length (comment_stack st)" by simp
      then have "comment_stack st ! i < ?n" using stk by simp
      with e il show ?thesis by (simp add: dold sd)
    next
      case False
      with i have ik: "i = ?k" by simp
      with k have "comment_stack (place c st) ! i = ?n" by (simp add: stack' nth_append)
      with ik lo show ?thesis by (simp add: dnew)
    qed
  qed
  have b: "\<forall>p < Suc ?n. \<forall>x \<in> set (replies (?h' ! p)).
             indent_level (dict (?h' ! x)) = indent_level (dict (?h' ! p)) + 1"
  proof (intro allI impI ballI)
    fix p x assume p: "p < Suc ?n" and x: "x \<in> set (replies (?h' ! p))"
    show "indent_level (dict (?h' ! x)) = indent_level (dict (?h' ! p)) + 1"
    proof (cases "p < ?n")
      case True
      from x True consider (old) "x \<in> set (replies (heap st ! p))"
        | (new) "x = ?n" "indent_level c \<noteq> 0" "slice_to (indent_level c) (comment_stack st) \<noteq> []"
                "p = last (slice_to (indent_level c) (comment_stack st))"
        by (auto simp: replies_place split: if_splits)
      then show ?thesis
      proof cases
        case old
        from heap_ok_replies[OF ok True old] have "x < ?n" by simp
        with True old show ?thesis by (simp add: dold rd)
      next
        case new
        from new(2) lo have kpos: "0 < ?k" by simp
        from new(4) lo have "p = last (take ?k (comment_stack st))" by (simp add: slice_to_nonneg)
        also have "\<dots> = comment_stack st ! (?k - 1)"
          using kpos k by (rule last_take)
        finally have pe: "p = comment_stack st ! (?k - 1)" .
        have "indent_level (dict (heap st ! (comment_stack st ! (?k - 1)))) = int (?k - 1)"
          using k kpos by (intro sd) simp
        with pe True new(1) kpos lo show ?thesis by (simp add: dold dnew)
      qed
    next
      case False
      with p have "p = ?n" by simp
      with x stk show ?thesis by (simp add: replies_place_new)
    qed
  qed
  show ?thesis unfolding depths_ok_def length_place using a b by blast
qed

lemma those_map_eq: "those (map f xs) = Some ys \<Longrightarrow> map f xs = map Some ys"
proof (induction xs arbitrary: ys)
  case Nil then show ?case by simp
next
  case (Cons x xs)
  then show ?case by (auto split: option.splits)
qed

lemma those_map_back:
  assumes "those (map f xs) = Some ys" "k \<in> set ys"
  shows "\<exists>x \<in> set xs. f x = Some k"
proof -
  from assms(1) have "map f xs = map Some ys" by (rule those_map_eq)
  then have "set (map f xs) = set (map Some ys)" by simp
  with assms(2) have "Some k \<in> f ` set xs" by auto
  then show ?thesis by force
qed

lemma those_map_forth:
  assumes "those (map f xs) = Some ys" "x \<in> set xs"
  shows "\<exists>k \<in> set ys. f x = Some k"
proof -
  from assms(1) have "map f xs = map Some ys" by (rule those_map_eq)
  then have "set (map f xs) = set (map Some ys)" by simp
  with assms(2) have "f x \<in> Some ` set ys" by auto
  then show ?thesis by force
qed

lemma reify_SomeD:
  assumes "reify n h a = Some t"
  shows "\<exists>m ks. n = Suc m \<and> a < length h \<and> t = Node (dict (h ! a)) ks \<and>
                 those (map (reify m h) (replies (h ! a))) = Some ks"
proof (cases n)
  case 0 with assms show ?thesis by simp
next
  case (Suc m)
  with assms show ?thesis by (auto split: if_splits)
qed

lemma reify_at_depth:
  assumes rd: "\<forall>p < length h. \<forall>x \<in> set (replies (h ! p)).
                 indent_level (dict (h ! x)) = indent_level (dict (h ! p)) + 1"
  shows "reify n h a = Some t \<Longrightarrow> at_depth (indent_level (dict (h ! a))) t"
proof (induction n arbitrary: a t)
  case 0 then show ?case by simp
next
  case (Suc n)
  from reify_SomeD[OF Suc.prems] obtain ks where a: "a < length h"
    and t: "t = Node (dict (h ! a)) ks"
    and ks: "those (map (reify n h) (replies (h ! a))) = Some ks" by auto
  have "\<forall>k \<in> set ks. at_depth (indent_level (dict (h ! a)) + 1) k"
  proof
    fix k assume "k \<in> set ks"
    from those_map_back[OF ks this] obtain x where x: "x \<in> set (replies (h ! a))"
      and r: "reify n h x = Some k" by blast
    from rd a x have "indent_level (dict (h ! x)) = indent_level (dict (h ! a)) + 1" by blast
    with Suc.IH[OF r] show "at_depth (indent_level (dict (h ! a)) + 1) k" by simp
  qed
  with t show ?case by (simp add: list_all_iff)
qed

lemma roots_zero_place:
  assumes ok: "heap_ok st" and r: "roots_zero st"
  shows "roots_zero (place c st)"
proof -
  have stk: "\<forall>a \<in> set (comment_stack st). a < length (heap st)" using ok heap_ok_stack by blast
  show ?thesis
    unfolding roots_zero_def
  proof
    fix a assume a: "a \<in> set (all_comments (place c st))"
    show "indent_level (dict (heap (place c st) ! a)) = 0"
    proof (cases "a \<in> set (all_comments st)")
      case True
      with ok have "a < length (heap st)" by (rule heap_ok_roots)
      with True r show ?thesis by (simp add: dict_place[OF stk] roots_zero_def)
    next
      case False
      with a have "indent_level c = 0 \<and> a = length (heap st)"
        by (auto simp: all_comments_place split: if_splits)
      then show ?thesis by (simp add: dict_place[OF stk])
    qed
  qed
qed

lemma roots_zero_run:
  "heap_ok st \<Longrightarrow> roots_zero st \<Longrightarrow> run rows st = Inr st' \<Longrightarrow> roots_zero st'"
proof (induction rows arbitrary: st)
  case Nil then show ?case by simp
next
  case (Cons r rows)
  from run_Cons_Inr[OF Cons.prems(3)] obtain lvl where
    "run rows (place (make_comment r lvl) st) = Inr st'" by blast
  with Cons.IH heap_ok_place[OF Cons.prems(1)] roots_zero_place[OF Cons.prems(1,2)]
  show ?case by blast
qed

lemma indent_make_comment: "indent_level (make_comment r lvl) = lvl"
  by (simp add: make_comment_def)

lemma run_fits:
  assumes "map get_indent_level rows = map Inr ds"
  shows "heap_ok st \<Longrightarrow> depths_ok st \<Longrightarrow> fits (int (length (comment_stack st))) ds \<Longrightarrow>
         \<exists>st'. run rows st = Inr st' \<and> depths_ok st'"
  using assms
proof (induction rows arbitrary: st ds)
  case Nil then show ?case by simp
next
  case (Cons r rows)
  from Cons.prems(4) obtain d ds' where ds: "ds = d # ds'" and lv: "get_indent_level r = Inr d"
    and rest: "map get_indent_level rows = map Inr ds'" by (cases ds) auto
  let ?st1 = "place (make_comment r d) st"
  from Cons.prems(3) ds have lo: "0 \<le> d" and hi: "d \<le> int (length (comment_stack st))"
    and f: "fits (d + 1) ds'" by simp_all
  have ok1: "heap_ok ?st1" using Cons.prems(1) by (rule heap_ok_place)
  have d1: "depths_ok ?st1"
    using Cons.prems(1,2) lo hi by (intro depths_ok_place) (simp_all add: indent_make_comment)
  have "comment_stack ?st1 = take (nat d) (comment_stack st) @ [length (heap st)]"
    using stack_place_fit[of "make_comment r d" st] lo hi by (simp add: indent_make_comment)
  with lo hi have "int (length (comment_stack ?st1)) = d + 1" by simp
  with f have f1: "fits (int (length (comment_stack ?st1))) ds'" by simp
  from Cons.IH[OF ok1 d1 f1 rest] obtain st' where "run rows ?st1 = Inr st'" "depths_ok st'"
    by blast
  with lv show ?case by (simp add: step_def)
qed

lemma map_dict_place:
  assumes "heap_ok st"
  shows "map dict (heap (place c st)) = map dict (heap st) @ [c]"
proof (rule nth_equalityI)
  show "length (map dict (heap (place c st))) = length (map dict (heap st) @ [c])"
    by (simp add: length_place)
next
  fix i assume "i < length (map dict (heap (place c st)))"
  then have i: "i \<le> length (heap st)" by (simp add: length_place)
  have stk: "\<forall>a \<in> set (comment_stack st). a < length (heap st)"
    using assms heap_ok_stack by blast
  from i have "i < length (heap (place c st))" by (simp add: length_place)
  then have "map dict (heap (place c st)) ! i = dict (heap (place c st) ! i)" by simp
  also have "\<dots> = (if i < length (heap st) then dict (heap st ! i) else c)"
    using stk i by (rule dict_place)
  also have "\<dots> = (map dict (heap st) @ [c]) ! i"
    using i by (auto simp: nth_append)
  finally show "map dict (heap (place c st)) ! i = (map dict (heap st) @ [c]) ! i" .
qed

lemma map_dict_run:
  "heap_ok st \<Longrightarrow> run rows st = Inr st' \<Longrightarrow> map get_indent_level rows = map Inr ds \<Longrightarrow>
   map dict (heap st') = map dict (heap st) @ comments_of rows ds"
proof (induction rows arbitrary: st ds)
  case Nil then show ?case by (simp add: comments_of_def)
next
  case (Cons r rows)
  from Cons.prems(3) obtain d ds' where ds: "ds = d # ds'" and lv: "get_indent_level r = Inr d"
    and rest: "map get_indent_level rows = map Inr ds'" by (cases ds) auto
  let ?st1 = "place (make_comment r d) st"
  from Cons.prems(2) lv have r1: "run rows ?st1 = Inr st'" by (simp add: step_def)
  have ok1: "heap_ok ?st1" using Cons.prems(1) by (rule heap_ok_place)
  from Cons.IH[OF ok1 r1 rest] map_dict_place[OF Cons.prems(1)] ds
  show ?case by (simp add: comments_of_def)
qed

lemma reify_labels:
  "reify n h a = Some t \<Longrightarrow> set (labels t) \<subseteq> set (map dict h)"
proof (induction n arbitrary: a t)
  case 0 then show ?case by simp
next
  case (Suc n)
  from reify_SomeD[OF Suc.prems] obtain ks where a: "a < length h"
    and t: "t = Node (dict (h ! a)) ks"
    and ks: "those (map (reify n h) (replies (h ! a))) = Some ks" by auto
  have "\<forall>k \<in> set ks. set (labels k) \<subseteq> set (map dict h)"
  proof
    fix k assume "k \<in> set ks"
    from those_map_back[OF ks this] obtain x where "reify n h x = Some k" by blast
    then show "set (labels k) \<subseteq> set (map dict h)" by (rule Suc.IH)
  qed
  with a t show ?case by auto
qed

lemma forest_labels:
  assumes "forest_of st = Some f"
  shows "set (concat (map labels f)) \<subseteq> set (map dict (heap st))"
proof -
  have "\<forall>k \<in> set f. set (labels k) \<subseteq> set (map dict (heap st))"
  proof
    fix k assume "k \<in> set f"
    from those_map_back[OF assms[unfolded forest_of_def] this]
    obtain x where "reify (length (heap st)) (heap st) x = Some k" by blast
    then show "set (labels k) \<subseteq> set (map dict (heap st))" by (rule reify_labels)
  qed
  then show ?thesis by auto
qed

lemma forest_at_depth:
  assumes d: "depths_ok st" and r: "roots_zero st" and f: "forest_of st = Some f"
  shows "list_all (at_depth 0) f"
proof -
  have rd: "\<forall>p < length (heap st). \<forall>x \<in> set (replies (heap st ! p)).
              indent_level (dict (heap st ! x)) = indent_level (dict (heap st ! p)) + 1"
    using d unfolding depths_ok_def by blast
  have "\<forall>k \<in> set f. at_depth 0 k"
  proof
    fix k assume "k \<in> set f"
    from those_map_back[OF f[unfolded forest_of_def] this]
    obtain x where x: "x \<in> set (all_comments st)"
      and k: "reify (length (heap st)) (heap st) x = Some k" by blast
    from r x have "indent_level (dict (heap st ! x)) = 0" unfolding roots_zero_def by blast
    with reify_at_depth[OF rd k] show "at_depth 0 k" by simp
  qed
  then show ?thesis by (simp add: list_all_iff)
qed

lemma depths_ok_init: "depths_ok init"
  by (simp add: depths_ok_def init_def)

lemma roots_zero_init: "roots_zero init"
  by (simp add: roots_zero_def init_def)

lemma build_Inr:
  "run rows init = Inr st \<Longrightarrow> \<exists>f. forest_of st = Some f \<and> build_nested_structure rows = Inr f"
proof -
  assume r: "run rows init = Inr st"
  have "heap_ok st" using heap_ok_init r by (rule heap_ok_run)
  then obtain f where "forest_of st = Some f" using forest_of_Some by blast
  with r show ?thesis by (simp add: build_nested_structure_def)
qed

lemma build_incrementing:
  assumes lv: "map get_indent_level rows = map Inr ds" and di: "depth_incrementing ds"
  shows "\<exists>f. build_nested_structure rows = Inr f \<and> list_all (at_depth 0) f \<and>
             set (concat (map labels f)) \<subseteq> set (comments_of rows ds)"
proof -
  have "fits (int (length (comment_stack init))) ds"
    using depth_incrementing_fits[OF di] by (simp add: init_def)
  from run_fits[OF lv heap_ok_init depths_ok_init this]
  obtain st where r: "run rows init = Inr st" and d: "depths_ok st" by blast
  have rz: "roots_zero st" using heap_ok_init roots_zero_init r by (rule roots_zero_run)
  from build_Inr[OF r] obtain f where f: "forest_of st = Some f"
    and b: "build_nested_structure rows = Inr f" by blast
  have "map dict (heap st) = comments_of rows ds"
    using map_dict_run[OF heap_ok_init r lv] by (simp add: init_def)
  with forest_labels[OF f] have "set (concat (map labels f)) \<subseteq> set (comments_of rows ds)"
    by simp
  with b forest_at_depth[OF d rz f] show ?thesis by blast
qed

lemma scenario:
  assumes "get_indent_level r1 = Inr 0" "get_indent_level r2 = Inr 1"
    "get_indent_level r3 = Inr 1" "get_indent_level r4 = Inr 2"
  shows "build_nested_structure [r1, r2, r3, r4] =
     Inr [Node (make_comment r1 0)
            [Node (make_comment r2 1) [],
             Node (make_comment r3 1) [Node (make_comment r4 2) []]]]"
  using assms
  by (simp add: build_nested_structure_def step_def place_def Let_def slice_to_def
      append_reply_def init_def forest_of_def indent_make_comment numeral_eq_Suc)

lemma at_depth_child_depths: "at_depth d t \<Longrightarrow> indent_level (label t) = d \<and> child_depths t"
proof (induction t arbitrary: d)
  case (Node c ks)
  then show ?case by (auto simp: list_all_iff)
qed

lemma at_depth_tree_invariant: "list_all (at_depth 0) f \<Longrightarrow> tree_invariant f"
  using at_depth_child_depths by (auto simp: tree_invariant_def list_all_iff)

lemma build_InrD:
  assumes "build_nested_structure rows = Inr f"
  shows "\<exists>st. run rows init = Inr st \<and> forest_of st = Some f"
  using assms by (auto simp: build_nested_structure_def split: sum.splits option.splits)

lemma reify_label: "reify n h a = Some t \<Longrightarrow> label t = dict (h ! a)"
  using reify_SomeD by fastforce

lemma build_roots_zero:
  assumes "build_nested_structure rows = Inr f"
  shows "list_all (\<lambda>t. indent_level (label t) = 0) f"
proof -
  from build_InrD[OF assms] obtain st where r: "run rows init = Inr st"
    and f: "forest_of st = Some f" by blast
  have rz: "roots_zero st" using heap_ok_init roots_zero_init r by (rule roots_zero_run)
  have "\<forall>k \<in> set f. indent_level (label k) = 0"
  proof
    fix k assume "k \<in> set f"
    from those_map_back[OF f[unfolded forest_of_def] this]
    obtain x where x: "x \<in> set (all_comments st)"
      and k: "reify (length (heap st)) (heap st) x = Some k" by blast
    from rz x have "indent_level (dict (heap st ! x)) = 0" unfolding roots_zero_def by blast
    with reify_label[OF k] show "indent_level (label k) = 0" by simp
  qed
  then show ?thesis by (simp add: list_all_iff)
qed

lemma sample_level [simp]:
  "get_indent_level (sample_row i NoMarker) = Inr 0"
  "get_indent_level (sample_row i (Width w)) = Inr (w div 40)"
  by (simp_all add: get_indent_level_def sample_row_def)

lemma sample_make [simp]: "make_comment (sample_row i m) d = sample_comment i d"
  by (simp add: make_comment_def sample_row_def sample_comment_def get_author_def
      get_time_def get_text_def)

lemma indent_sample [simp]: "indent_level (sample_comment i d) = d"
  by (simp add: sample_comment_def)

lemma sorted_wrt_snoc_less:
  "sorted_wrt (<) xs \<Longrightarrow> \<forall>x \<in> set xs. x < (n::nat) \<Longrightarrow> sorted_wrt (<) (xs @ [n])"
  by (simp add: sorted_wrt_append)

lemma ordered_init: "ordered init"
  by (simp add: ordered_def init_def)

lemma ordered_place:
  assumes ok: "heap_ok st" and o: "ordered st"
  shows "ordered (place c st)"
proof -
  let ?n = "length (heap st)"
  have stk: "\<forall>a \<in> set (comment_stack st). a < ?n" using ok heap_ok_stack by blast
  have rts: "\<forall>a \<in> set (all_comments st). a < ?n" using ok heap_ok_roots by blast
  have o1: "sorted_wrt (<) (all_comments st)" using o unfolding ordered_def by blast
  have o2: "\<And>p. p < ?n \<Longrightarrow> sorted_wrt (<) (replies (heap st ! p))"
    using o unfolding ordered_def by blast
  have a: "sorted_wrt (<) (all_comments (place c st))"
    using o1 rts by (simp add: all_comments_place sorted_wrt_snoc_less)
  have b: "\<forall>p < Suc ?n. sorted_wrt (<) (replies (heap (place c st) ! p))"
  proof (intro allI impI)
    fix p assume p: "p < Suc ?n"
    show "sorted_wrt (<) (replies (heap (place c st) ! p))"
    proof (cases "p < ?n")
      case True
      have "\<forall>x \<in> set (replies (heap st ! p)). x < ?n"
        using heap_ok_replies[OF ok True] by blast
      with o2[OF True] have "sorted_wrt (<) (replies (heap st ! p) @ [?n])"
        by (rule sorted_wrt_snoc_less)
      with o2[OF True] True show ?thesis by (auto simp: replies_place)
    next
      case False
      with p have "p = ?n" by simp
      with stk show ?thesis by (simp add: replies_place_new)
    qed
  qed
  show ?thesis unfolding ordered_def length_place using a b by blast
qed

lemma ordered_run: "heap_ok st \<Longrightarrow> ordered st \<Longrightarrow> run rows st = Inr st' \<Longrightarrow> ordered st'"
proof (induction rows arbitrary: st)
  case Nil then show ?case by simp
next
  case (Cons r rows)
  from run_Cons_Inr[OF Cons.prems(3)] obtain lvl where
    "run rows (place (make_comment r lvl) st) = Inr st'" by blast
  with Cons.IH heap_ok_place[OF Cons.prems(1)] ordered_place[OF Cons.prems(1,2)]
  show ?case by blast
qed

lemma run_levels:
  "run rows st = Inr st' \<Longrightarrow> \<exists>ds. map get_indent_level rows = map Inr ds"
proof (induction rows arbitrary: st)
  case Nil then show ?case by simp
next
  case (Cons r rows)
  from run_Cons_Inr[OF Cons.prems] obtain lvl where l: "get_indent_level r = Inr lvl"
    and "run rows (place (make_comment r lvl) st) = Inr st'" by blast
  from Cons.IH[OF this(2)] obtain ds where "map get_indent_level rows = map Inr ds" by blast
  with l have "map get_indent_level (r # rows) = map Inr (lvl # ds)" by simp
  then show ?case by blast
qed

lemma sorted_wrt_pred:
  "sorted_wrt (<) as \<Longrightarrow> \<forall>a \<in> set as. 0 < (a::nat) \<Longrightarrow> sorted_wrt (<) (map (\<lambda>i. i - 1) as)"
  by (induction as) auto

lemma map_nth_Cons_pos:
  "\<forall>a \<in> set as. 0 < a \<Longrightarrow> map ((!) (x # xs)) as = map ((!) xs) (map (\<lambda>i. i - 1) as)"
  by (induction as) (auto simp: nth_Cons')

lemma subseq_map_nth:
  "sorted_wrt (<) as \<Longrightarrow> \<forall>a \<in> set as. a < length xs \<Longrightarrow> subseq (map ((!) xs) as) xs"
proof (induction xs arbitrary: as)
  case Nil
  then have "as = []" by (cases as) auto
  then show ?case by simp
next
  case (Cons x xs)
  show ?case
  proof (cases as)
    case Nil then show ?thesis by simp
  next
    case (Cons a as')
    show ?thesis
    proof (cases "a = 0")
      case True
      from Cons.prems(1) Cons True have pos: "\<forall>b \<in> set as'. 0 < b" by auto
      let ?bs = "map (\<lambda>i. i - 1) as'"
      from Cons.prems(1) Cons have "sorted_wrt (<) as'" by simp
      then have s: "sorted_wrt (<) ?bs" using pos by (rule sorted_wrt_pred)
      from Cons.prems(2) Cons pos have r: "\<forall>b \<in> set ?bs. b < length xs" by auto
      have A: "subseq (map ((!) xs) ?bs) xs" using s r by (rule Cons.IH)
      have B: "map ((!) (x # xs)) as = x # map ((!) xs) ?bs"
        unfolding Cons True using map_nth_Cons_pos[OF pos, of x xs] by simp
      show ?thesis unfolding B using A by simp
    next
      case False
      from Cons.prems(1) Cons False have pos: "\<forall>b \<in> set as. 0 < b" by auto
      let ?bs = "map (\<lambda>i. i - 1) as"
      have s: "sorted_wrt (<) ?bs" using Cons.prems(1) pos by (rule sorted_wrt_pred)
      from Cons.prems(2) pos have r: "\<forall>b \<in> set ?bs. b < length xs" by auto
      have A: "subseq (map ((!) xs) ?bs) xs" using s r by (rule Cons.IH)
      have B: "map ((!) (x # xs)) as = map ((!) xs) ?bs"
        by (rule map_nth_Cons_pos[OF pos])
      show ?thesis unfolding B using A by (rule list_emb_Cons)
    qed
  qed
qed

lemma those_map_labels:
  assumes "those (map (reify n h) as) = Some ks"
  shows "map label ks = map (\<lambda>a. dict (h ! a)) as"
proof -
  from assms have e: "map (reify n h) as = map Some ks" by (rule those_map_eq)
  then have len: "length as = length ks" by (metis length_map)
  show ?thesis
  proof (rule nth_equalityI)
    show "length (map label ks) = length (map (\<lambda>a. dict (h ! a)) as)" using len by simp
  next
    fix i assume "i < length (map label ks)"
    then have i: "i < length ks" by simp
    with len e have "reify n h (as ! i) = Some (ks ! i)"
      by (metis length_map nth_map)
    from reify_label[OF this] i len
    show "map label ks ! i = map (\<lambda>a. dict (h ! a)) as ! i" by simp
  qed
qed

lemma labels_subseq:
  assumes "sorted_wrt (<) as" "\<forall>a \<in> set as. a < length h"
    and "those (map (reify n h) as) = Some ks"
  shows "subseq (map label ks) (map dict h)"
proof -
  have A: "map (\<lambda>a. dict (h ! a)) as = map ((!) (map dict h)) as"
    using assms(2) by simp
  have B: "subseq (map ((!) (map dict h)) as) (map dict h)"
    using assms(1,2) by (intro subseq_map_nth) simp_all
  show ?thesis unfolding those_map_labels[OF assms(3)] A by (rule B)
qed

lemma reify_nodes:
  "reify n h a = Some t \<Longrightarrow> u \<in> set (nodes_of t) \<Longrightarrow> \<exists>m b. reify m h b = Some u"
proof (induction n arbitrary: a t)
  case 0 then show ?case by simp
next
  case (Suc n)
  from reify_SomeD[OF Suc.prems(1)] obtain ks where t: "t = Node (dict (h ! a)) ks"
    and ks: "those (map (reify n h) (replies (h ! a))) = Some ks" by auto
  show ?case
  proof (cases "u = t")
    case True with Suc.prems(1) show ?thesis by blast
  next
    case False
    with Suc.prems(2) t obtain k where k: "k \<in> set ks" and u: "u \<in> set (nodes_of k)" by auto
    from those_map_back[OF ks k] obtain x where "reify n h x = Some k" by blast
    from Suc.IH[OF this u] show ?thesis .
  qed
qed

lemma reify_kids_subseq:
  assumes ok: "heap_ok st" and o: "ordered st"
    and r: "reify n (heap st) a = Some t"
  shows "subseq (map label (kids t)) (map dict (heap st))"
proof -
  from reify_SomeD[OF r] obtain m ks where a: "a < length (heap st)"
    and t: "t = Node (dict (heap st ! a)) ks"
    and ks: "those (map (reify m (heap st)) (replies (heap st ! a))) = Some ks" by auto
  have s: "sorted_wrt (<) (replies (heap st ! a))" using o a unfolding ordered_def by blast
  have b: "\<forall>x \<in> set (replies (heap st ! a)). x < length (heap st)"
    using heap_ok_replies[OF ok a] by blast
  from labels_subseq[OF s b ks] t show ?thesis by simp
qed

lemma build_order:
  assumes "build_nested_structure rows = Inr f"
  shows "\<exists>ds. map get_indent_level rows = map Inr ds \<and>
           subseq (map label f) (comments_of rows ds) \<and>
           (\<forall>t \<in> set (concat (map nodes_of f)).
              subseq (map label (kids t)) (comments_of rows ds))"
proof -
  from build_InrD[OF assms] obtain st where r: "run rows init = Inr st"
    and f: "forest_of st = Some f" by blast
  from run_levels[OF r] obtain ds where lv: "map get_indent_level rows = map Inr ds" by blast
  have ok: "heap_ok st" using heap_ok_init r by (rule heap_ok_run)
  have o: "ordered st" using heap_ok_init ordered_init r by (rule ordered_run)
  have d: "map dict (heap st) = comments_of rows ds"
    using map_dict_run[OF heap_ok_init r lv] by (simp add: init_def)
  have s: "sorted_wrt (<) (all_comments st)" using o unfolding ordered_def by blast
  have b: "\<forall>a \<in> set (all_comments st). a < length (heap st)" using ok heap_ok_roots by blast
  have top: "subseq (map label f) (comments_of rows ds)"
    using labels_subseq[OF s b f[unfolded forest_of_def]] d by simp
  have "\<forall>t \<in> set (concat (map nodes_of f)). subseq (map label (kids t)) (comments_of rows ds)"
  proof
    fix t assume "t \<in> set (concat (map nodes_of f))"
    then obtain k where k: "k \<in> set f" and t: "t \<in> set (nodes_of k)" by auto
    from those_map_back[OF f[unfolded forest_of_def] k]
    obtain x where "reify (length (heap st)) (heap st) x = Some k" by blast
    from reify_nodes[OF this t] obtain m b where "reify m (heap st) b = Some t" by blast
    from reify_kids_subseq[OF ok o this] d
    show "subseq (map label (kids t)) (comments_of rows ds)" by simp
  qed
  with lv top show ?thesis by blast
qed

lemma build_sample3:
  "build_nested_structure
     [sample_row ''1'' NoMarker, sample_row ''2'' (Width 40), sample_row ''3'' (Width 40)] =
   Inr [Node (sample_comment ''1'' 0)
          [Node (sample_comment ''2'' 1) [], Node (sample_comment ''3'' 1) []]]"
  by (simp add: build_nested_structure_def step_def place_def Let_def slice_to_def
      append_reply_def init_def forest_of_def numeral_eq_Suc)

lemma unreferenced_place:
  assumes ok: "heap_ok st" and a: "a < length (heap st)" and u: "unreferenced a st"
  shows "unreferenced a (place c st)"
proof -
  let ?n = "length (heap st)"
  have stk: "\<forall>a \<in> set (comment_stack st). a < ?n" using ok heap_ok_stack by blast
  have u1: "a \<notin> set (all_comments st)" using u unfolding unreferenced_def by blast
  have u2: "\<And>p. p < ?n \<Longrightarrow> a \<notin> set (replies (heap st ! p))"
    using u unfolding unreferenced_def by blast
  have A: "a \<notin> set (all_comments (place c st))"
    using u1 a by (simp add: all_comments_place)
  have B: "\<forall>p < Suc ?n. a \<notin> set (replies (heap (place c st) ! p))"
  proof (intro allI impI)
    fix p assume p: "p < Suc ?n"
    show "a \<notin> set (replies (heap (place c st) ! p))"
    proof (cases "p < ?n")
      case True
      with u2[OF True] a show ?thesis by (auto simp: replies_place)
    next
      case False
      with p have "p = ?n" by simp
      with stk show ?thesis by (simp add: replies_place_new)
    qed
  qed
  show ?thesis unfolding unreferenced_def length_place using A B by blast
qed

lemma unreferenced_run:
  "heap_ok st \<Longrightarrow> a < length (heap st) \<Longrightarrow> unreferenced a st \<Longrightarrow> run rows st = Inr st' \<Longrightarrow>
   unreferenced a st'"
proof (induction rows arbitrary: st)
  case Nil then show ?case by simp
next
  case (Cons r rows)
  from run_Cons_Inr[OF Cons.prems(4)] obtain lvl where
    r: "run rows (place (make_comment r lvl) st) = Inr st'" by blast
  let ?st1 = "place (make_comment r lvl) st"
  have "heap_ok ?st1" using Cons.prems(1) by (rule heap_ok_place)
  moreover have "a < length (heap ?st1)" using Cons.prems(2) by (simp add: length_place)
  moreover have "unreferenced a ?st1" using Cons.prems(1,2,3) by (rule unreferenced_place)
  ultimately show ?case using r by (rule Cons.IH)
qed

lemma unreferenced_drop:
  assumes ok: "heap_ok st" and nz: "indent_level c \<noteq> 0"
    and e: "slice_to (indent_level c) (comment_stack st) = []"
  shows "unreferenced (length (heap st)) (place c st)"
proof -
  let ?n = "length (heap st)"
  have stk: "\<forall>a \<in> set (comment_stack st). a < ?n" using ok heap_ok_stack by blast
  have A: "?n \<notin> set (all_comments (place c st))"
    using heap_ok_roots[OF ok, of ?n] nz by (auto simp: all_comments_place)
  have B: "\<forall>p < Suc ?n. ?n \<notin> set (replies (heap (place c st) ! p))"
  proof (intro allI impI)
    fix p assume p: "p < Suc ?n"
    show "?n \<notin> set (replies (heap (place c st) ! p))"
    proof (cases "p < ?n")
      case True
      with heap_ok_replies[OF ok True, of ?n] e show ?thesis by (auto simp: replies_place)
    next
      case False
      with p have "p = ?n" by simp
      with stk show ?thesis by (simp add: replies_place_new)
    qed
  qed
  show ?thesis unfolding unreferenced_def length_place using A B by blast
qed

lemma length_run_init: "run rows init = Inr st \<Longrightarrow> length (heap st) = length rows"
  using length_run[of rows init st] by (simp add: init_def)

lemma drop_unreferenced:
  assumes pre: "run pre init = Inr st" and lv: "get_indent_level r = Inr lvl"
    and pos: "lvl \<noteq> 0" and e: "slice_to lvl (comment_stack st) = []"
    and fin: "run (pre @ r # post) init = Inr st'"
  shows "unreferenced (length pre) st'"
proof -
  let ?c = "make_comment r lvl"
  have ok: "heap_ok st" using heap_ok_init pre by (rule heap_ok_run)
  have n: "length (heap st) = length pre" using pre by (rule length_run_init)
  from fin pre lv have post: "run post (place ?c st) = Inr st'"
    by (simp add: run_append step_def)
  have u: "unreferenced (length (heap st)) (place ?c st)"
    using ok pos e by (intro unreferenced_drop) (simp_all add: indent_make_comment)
  have ok1: "heap_ok (place ?c st)" using ok by (rule heap_ok_place)
  have lt: "length (heap st) < length (heap (place ?c st))" by (simp add: length_place)
  have "unreferenced (length (heap st)) st'"
    using ok1 lt u post by (rule unreferenced_run)
  with n show ?thesis by simp
qed

lemma reify_mono: "reify n h a = Some t \<Longrightarrow> reify (Suc n) h a = Some t"
proof (induction n arbitrary: a t)
  case 0 then show ?case by simp
next
  case (Suc n)
  from reify_SomeD[OF Suc.prems] obtain ks where a: "a < length h"
    and t: "t = Node (dict (h ! a)) ks"
    and ks: "those (map (reify n h) (replies (h ! a))) = Some ks" by auto
  have E: "map (reify (Suc n) h) (replies (h ! a)) = map (reify n h) (replies (h ! a))"
  proof (rule map_cong[OF refl])
    fix x assume "x \<in> set (replies (h ! a))"
    from those_map_forth[OF ks this] obtain k where k: "reify n h x = Some k" by blast
    from Suc.IH[OF k] k show "reify (Suc n) h x = reify n h x" by simp
  qed
  have X: "those (map (reify (Suc n) h) (replies (h ! a))) = Some ks"
    unfolding E by (rule ks)
  show ?case by (subst reify.simps(2)) (simp only: X a t if_True option.map)
qed

lemma reify_snoc:
  assumes "\<forall>p < length h. \<forall>x \<in> set (replies (h ! p)). x < length h"
  shows "a < length h \<Longrightarrow> reify n (h @ [c]) a = reify n h a"
proof (induction n arbitrary: a)
  case 0 then show ?case by simp
next
  case (Suc n)
  have E: "map (reify n (h @ [c])) (replies (h ! a)) = map (reify n h) (replies (h ! a))"
  proof (rule map_cong[OF refl])
    fix x assume "x \<in> set (replies (h ! a))"
    with assms Suc.prems have "x < length h" by blast
    then show "reify n (h @ [c]) x = reify n h x" by (rule Suc.IH)
  qed
  show ?case using Suc.prems by (simp add: nth_append E)
qed

lemma forest_of_drop:
  assumes ok: "heap_ok st" and nz: "indent_level c \<noteq> 0"
    and e: "slice_to (indent_level c) (comment_stack st) = []"
  shows "forest_of (place c st) = forest_of st"
proof -
  let ?n = "length (heap st)"
  let ?h = "heap st"
  have r: "\<forall>p < ?n. \<forall>x \<in> set (replies (?h ! p)). x < ?n"
    using heap_ok_replies[OF ok] by blast
  from forest_of_Some[OF ok] obtain f where f: "forest_of st = Some f" by blast
  have M: "map (reify (Suc ?n) (?h @ [new_cell c])) (all_comments st) =
        map (reify ?n ?h) (all_comments st)"
  proof (rule map_cong[OF refl])
    fix x assume x: "x \<in> set (all_comments st)"
    then have xl: "x < ?n" using ok heap_ok_roots by blast
    from those_map_forth[OF f[unfolded forest_of_def] x]
    obtain k where k: "reify ?n ?h x = Some k" by blast
    have "reify (Suc ?n) (?h @ [new_cell c]) x = reify (Suc ?n) ?h x"
      using r xl by (rule reify_snoc)
    with reify_mono[OF k] k show "reify (Suc ?n) (?h @ [new_cell c]) x = reify ?n ?h x"
      by simp
  qed
  show ?thesis
    unfolding forest_of_def using nz e by (simp add: place_drop M del: reify.simps)
qed

lemma build_drop:
  assumes pre: "run pre init = Inr st" and lv: "get_indent_level r = Inr lvl"
    and pos: "lvl \<noteq> 0" and e: "slice_to lvl (comment_stack st) = []"
  shows "build_nested_structure (pre @ [r]) = build_nested_structure pre \<and>
         (\<exists>f. build_nested_structure pre = Inr f)"
proof -
  let ?c = "make_comment r lvl"
  have ok: "heap_ok st" using heap_ok_init pre by (rule heap_ok_run)
  from pre lv have r1: "run (pre @ [r]) init = Inr (place ?c st)"
    by (simp add: run_append step_def)
  have "forest_of (place ?c st) = forest_of st"
    using ok pos e by (intro forest_of_drop) (simp_all add: indent_make_comment)
  with r1 pre have "build_nested_structure (pre @ [r]) = build_nested_structure pre"
    by (simp add: build_nested_structure_def)
  with build_Inr[OF pre] show ?thesis by blast
qed

lemma dict_run_init:
  assumes "run rows init = Inr st" "i < length rows" "get_indent_level (rows ! i) = Inr lvl"
  shows "dict (heap st ! i) = make_comment (rows ! i) lvl"
proof -
  from run_levels[OF assms(1)] obtain ds where l: "map get_indent_level rows = map Inr ds"
    by blast
  then have len: "length ds = length rows" by (metis length_map)
  from l assms(2) have "get_indent_level (rows ! i) = Inr (ds ! i)"
    by (metis len nth_map)
  with assms(3) have d: "ds ! i = lvl" by simp
  have "map dict (heap st) = comments_of rows ds"
    using map_dict_run[OF heap_ok_init assms(1) l] by (simp add: init_def)
  then have "map dict (heap st) ! i = comments_of rows ds ! i" by simp
  with assms(2) len d length_run_init[OF assms(1)] show ?thesis
    by (simp add: comments_of_def)
qed

lemma replies_place_mono:
  assumes "p < length (heap st)" "x \<in> set (replies (heap st ! p))"
  shows "x \<in> set (replies (heap (place c st) ! p))"
  using assms by (auto simp: replies_place)

lemma reach_place_mono:
  assumes "a \<in> reach (heap st) (all_comments st)"
  shows "a \<in> reach (heap (place c st)) (all_comments (place c st))"
  using assms
proof (induction rule: reach.induct)
  case (root a)
  then have "a \<in> set (all_comments (place c st))" by (simp add: all_comments_place)
  then show ?case by (rule reach.root)
next
  case (kid p x)
  have A: "p < length (heap (place c st))" using kid.hyps(2) by (simp add: length_place)
  have B: "x \<in> set (replies (heap (place c st) ! p))"
    using kid.hyps(2,3) by (rule replies_place_mono)
  show ?case using kid.IH A B by (rule reach.kid)
qed

lemma reach_run_mono:
  "a \<in> reach (heap st) (all_comments st) \<Longrightarrow> run rows st = Inr st' \<Longrightarrow>
   a \<in> reach (heap st') (all_comments st')"
proof (induction rows arbitrary: st)
  case Nil then show ?case by simp
next
  case (Cons r rows)
  from run_Cons_Inr[OF Cons.prems(2)] obtain lvl where
    r: "run rows (place (make_comment r lvl) st) = Inr st'" by blast
  from reach_place_mono[OF Cons.prems(1)] r show ?case by (rule Cons.IH)
qed

lemma place_attaches:
  assumes ok: "heap_ok st" and s: "stack_attached st"
  shows "stack_attached (place c st) \<and>
         (indent_level c = 0 \<or> slice_to (indent_level c) (comment_stack st) \<noteq> [] \<longrightarrow>
          length (heap st) \<in> reach (heap (place c st)) (all_comments (place c st)))"
proof -
  let ?n = "length (heap st)"
  let ?R = "reach (heap (place c st)) (all_comments (place c st))"
  have old: "set (comment_stack st) \<subseteq> ?R"
    using s reach_place_mono unfolding stack_attached_def by blast
  show ?thesis
  proof (cases "indent_level c = 0")
    case True
    then have "?n \<in> set (all_comments (place c st))" by (simp add: all_comments_place)
    then have "?n \<in> ?R" by (rule reach.root)
    with True show ?thesis by (simp add: stack_attached_def place_root)
  next
    case nz: False
    show ?thesis
    proof (cases "slice_to (indent_level c) (comment_stack st) = []")
      case True
      with nz show ?thesis by (simp add: stack_attached_def place_drop)
    next
      case False
      let ?p = "last (slice_to (indent_level c) (comment_stack st))"
      have pin: "?p \<in> set (comment_stack st)" using False by (rule last_slice_in_stack)
      then have pl: "?p < ?n" using ok heap_ok_stack by blast
      have pr: "?p \<in> ?R" using pin old by blast
      have nr: "?n \<in> set (replies (heap (place c st) ! ?p))"
        using pl nz False by (simp add: replies_place)
      have pl': "?p < length (heap (place c st))" using pl by (simp add: length_place)
      have n: "?n \<in> ?R" using pr pl' nr by (rule reach.kid)
      have "set (slice_to (indent_level c) (comment_stack st)) \<subseteq> ?R"
        using set_slice_to[of "indent_level c" "comment_stack st"] old by blast
      then have "set (comment_stack (place c st)) \<subseteq> ?R"
        using n by (simp add: place_reply[OF nz False])
      with n show ?thesis unfolding stack_attached_def by blast
    qed
  qed
qed

lemma nodes_of_self: "t \<in> set (nodes_of t)"
  by (cases t) simp

lemma nodes_of_kid: "t \<in> set (nodes_of r) \<Longrightarrow> k \<in> set (kids t) \<Longrightarrow> k \<in> set (nodes_of r)"
proof (induction r)
  case (Node c ks)
  show ?case
  proof (cases "t = Node c ks")
    case True
    with Node.prems(2) have "k \<in> set ks" by simp
    then have "k \<in> set (concat (map nodes_of ks))" using nodes_of_self by auto
    then show ?thesis by simp
  next
    case False
    with Node.prems(1) obtain r' where r': "r' \<in> set ks" and t: "t \<in> set (nodes_of r')" by auto
    from Node.IH[OF r' t Node.prems(2)] r' show ?thesis by auto
  qed
qed

lemma labels_nodes_of: "labels t = map label (nodes_of t)"
proof (induction t)
  case (Node c ks)
  have "concat (map labels ks) = concat (map (\<lambda>k. map label (nodes_of k)) ks)"
    using Node.IH by (intro arg_cong[where f=concat] map_cong) simp_all
  then show ?case by (simp add: map_concat comp_def)
qed

lemma reach_in_forest:
  assumes f: "forest_of st = Some f" and a: "a \<in> reach (heap st) (all_comments st)"
  shows "\<exists>m t. reify m (heap st) a = Some t \<and> t \<in> set (concat (map nodes_of f))"
  using a
proof (induction rule: reach.induct)
  case (root a)
  from those_map_forth[OF f[unfolded forest_of_def] root]
  obtain k where k: "k \<in> set f" and r: "reify (length (heap st)) (heap st) a = Some k" by blast
  from k have "k \<in> set (concat (map nodes_of f))" using nodes_of_self by auto
  with r show ?case by blast
next
  case (kid p x)
  from kid.IH obtain m t where r: "reify m (heap st) p = Some t"
    and t: "t \<in> set (concat (map nodes_of f))" by blast
  from reify_SomeD[OF r] obtain m' ks where tk: "t = Node (dict (heap st ! p)) ks"
    and ks: "those (map (reify m' (heap st)) (replies (heap st ! p))) = Some ks" by auto
  from those_map_forth[OF ks kid.hyps(3)] obtain k where k: "k \<in> set ks"
    and rk: "reify m' (heap st) x = Some k" by blast
  from t obtain r0 where r0: "r0 \<in> set f" and tr: "t \<in> set (nodes_of r0)" by auto
  from k tk have "k \<in> set (kids t)" by simp
  from nodes_of_kid[OF tr this] r0 have "k \<in> set (concat (map nodes_of f))" by auto
  with rk show ?case by blast
qed

lemma stack_attached_init: "stack_attached init"
  by (simp add: stack_attached_def init_def)

lemma stack_attached_run:
  "heap_ok st \<Longrightarrow> stack_attached st \<Longrightarrow> run rows st = Inr st' \<Longrightarrow> stack_attached st'"
proof (induction rows arbitrary: st)
  case Nil then show ?case by simp
next
  case (Cons r rows)
  from run_Cons_Inr[OF Cons.prems(3)] obtain lvl where
    r: "run rows (place (make_comment r lvl) st) = Inr st'" by blast
  have "heap_ok (place (make_comment r lvl) st)" using Cons.prems(1) by (rule heap_ok_place)
  moreover have "stack_attached (place (make_comment r lvl) st)"
    using place_attaches[OF Cons.prems(1,2)] by blast
  ultimately show ?case using r by (rule Cons.IH)
qed

lemma kept_in_forest:
  assumes pre: "run pre init = Inr st" and lv: "get_indent_level r = Inr lvl"
    and keep: "lvl = 0 \<or> slice_to lvl (comment_stack st) \<noteq> []"
    and b: "build_nested_structure (pre @ r # post) = Inr f"
  shows "make_comment r lvl \<in> set (concat (map labels f))"
proof -
  let ?c = "make_comment r lvl"
  from build_InrD[OF b] obtain st' where fin: "run (pre @ r # post) init = Inr st'"
    and f: "forest_of st' = Some f" by blast
  have ok: "heap_ok st" using heap_ok_init pre by (rule heap_ok_run)
  have sa: "stack_attached st" using heap_ok_init stack_attached_init pre
    by (rule stack_attached_run)
  have n: "length (heap st) = length pre" using pre by (rule length_run_init)
  from fin pre lv have post: "run post (place ?c st) = Inr st'"
    by (simp add: run_append step_def)
  from place_attaches[OF ok sa, of ?c] keep
  have "length (heap st) \<in> reach (heap (place ?c st)) (all_comments (place ?c st))"
    by (simp add: indent_make_comment)
  from reach_run_mono[OF this post] n
  have "length pre \<in> reach (heap st') (all_comments st')" by simp
  from reach_in_forest[OF f this] obtain m t where r: "reify m (heap st') (length pre) = Some t"
    and t: "t \<in> set (concat (map nodes_of f))" by blast
  have "dict (heap st' ! length pre) = ?c"
    using dict_run_init[OF fin, of "length pre" lvl] lv by simp
  with reify_label[OF r] have "label t = ?c" by simp
  with t have "?c \<in> label ` set (concat (map nodes_of f))" by force
  also have "label ` set (concat (map nodes_of f)) = set (concat (map labels f))"
    by (auto simp: labels_nodes_of)
  finally show ?thesis .
qed

lemma deleted_level [simp]:
  "get_indent_level (deleted_row i NoMarker) = Inr 0"
  "get_indent_level (deleted_row i (Width w)) = Inr (w div 40)"
  by (simp_all add: get_indent_level_def deleted_row_def)

lemma deleted_make [simp]: "make_comment (deleted_row i m) d = deleted_comment i d"
  by (simp add: make_comment_def deleted_row_def deleted_comment_def get_author_def
      get_time_def get_text_def)

lemma indent_deleted [simp]: "indent_level (deleted_comment i d) = d"
  by (simp add: deleted_comment_def)

lemma sentinels:
  "hnuser r = None \<Longrightarrow> c_author (make_comment r lvl) = ''[deleted]''"
  "commtext r = None \<Longrightarrow> c_text (make_comment r lvl) = ''[deleted]''"
  by (simp_all add: make_comment_def get_author_def get_text_def)

lemma level_from_marker:
  assumes "get_indent_level r = Inr lvl"
  shows "(ind r = NoMarker \<longrightarrow> lvl = 0) \<and> (\<forall>w. ind r = Width w \<longrightarrow> lvl = w div 40)"
  using assms by (auto simp: get_indent_level_def split: marker.splits)

lemma split_examples:
  "split ''a&b&c'' ''&'' = [''a'', ''b'', ''c'']"
  "split ''https://news.ycombinator.com/item?id=12345&p=1'' ''item?id='' =
     [''https://news.ycombinator.com/'', ''12345&p=1'']"
  "split [] ''&'' = [[]]"
  "split [CHR ''a'', newline, CHR ''b''] [newline] = [''a'', ''b'']"
  by (simp_all add: split_def newline_def)

lemma str_nat_examples: "str_nat 0 = ''0''" "str_nat 42 = ''42''" "str_nat 105 = ''105''"
  by (simp_all add: digit_def)

lemma extract_sample_story [simp]: "extract_story_info (sample_page rs) = sample_story"
  by (simp add: extract_story_info_def sample_page_def sample_story_def)

lemma first_pass_run:
  "first_pass rows acc = Inl e \<longleftrightarrow> run rows st = Inl e"
proof (induction rows arbitrary: acc st)
  case Nil then show ?case by simp
next
  case (Cons r rows)
  show ?case
  proof (cases "get_indent_level r")
    case (Inl e') then show ?thesis by (simp add: step_def)
  next
    case (Inr lvl)
    then show ?thesis using Cons.IH by (simp add: step_def)
  qed
qed

lemma extract_comments_eq: "extract_comments rows = build_nested_structure rows"
proof (cases "first_pass rows []")
  case (Inl e)
  then have "run rows init = Inl e" using first_pass_run[of rows "[]" e init] by simp
  with Inl show ?thesis by (simp add: extract_comments_def build_nested_structure_def)
next
  case (Inr a)
  then show ?thesis by (simp add: extract_comments_def)
qed

lemma pg_rows_sample [simp]: "pg_rows (sample_page rs) = rs"
  by (simp add: sample_page_def)

lemma build_sample2:
  "build_nested_structure [sample_row ''1'' NoMarker, sample_row ''2'' (Width 40)] =
     Inr [Node (sample_comment ''1'' 0) [Node (sample_comment ''2'' 1) []]]"
  by (simp add: build_nested_structure_def step_def place_def Let_def slice_to_def
      append_reply_def init_def forest_of_def numeral_eq_Suc)


















lemma get_markdown_examples:
  "get_markdown (JObj [(''success'', JBool True), (''data'', JObj [(''markdown'', JStr ''# Hi'')])])
     = Inr (JStr ''# Hi'')"
  "get_markdown (JObj [(''data'', JObj [(''html'', JStr ''<p>'')])]) =
     Inl (FirecrawlError ResponseError
            ([CHR 0x27] @ ''markdown' field not found in data. Available fields: ['html']''))"
  "get_markdown (JObj [(''success'', JBool False)]) =
     Inl (FirecrawlError ResponseError
            ([CHR 0x27] @ ''data' field not found in response. Response: {'success': False}''))"
  "get_markdown (JObj [(''data'', JNull)]) =
     Inl (TypeError ''argument of type 'NoneType' is not iterable'')"
  by (simp_all add: get_markdown_def py_repr_str_def escape_char_def Let_def)

lemma is_firecrawl_simps [simp]:
  "is_firecrawl (FirecrawlError k m)" "\<not> is_firecrawl (ValueError m)"
  "\<not> is_firecrawl (RequestException m)" "\<not> is_firecrawl (TypeError m)"
  "\<not> is_firecrawl (AttributeError m)" "\<not> is_firecrawl (IndexError m)"
  "\<not> is_firecrawl NotAForest"
  by (simp_all add: is_firecrawl_def)

lemma scrape_url_firecrawl:
  assumes "scrape_url env_key post url api_key = Inl e"
  shows "is_firecrawl e"
proof (cases "case api_key of None \<Rightarrow> env_key | Some k \<Rightarrow> Some k")
  case None
  with assms show ?thesis by (auto simp: scrape_url_def)
next
  case (Some k)
  show ?thesis
  proof (cases "k = []")
    case True
    with assms Some show ?thesis by (auto simp: scrape_url_def)
  next
    case False
    show ?thesis
    proof (cases "post url k")
      case HTimeout
      with assms Some False show ?thesis by (auto simp: scrape_url_def)
    next
      case (HConnectionError m)
      with assms Some False show ?thesis by (auto simp: scrape_url_def)
    next
      case (HHTTPError m st d b)
      with assms Some False show ?thesis by (auto simp: scrape_url_def)
    next
      case (HRequestException m)
      with assms Some False show ?thesis by (auto simp: scrape_url_def)
    next
      case (HResponse d m b)
      with assms Some False show ?thesis by (cases d) (auto simp: scrape_url_def)
    qed
  qed
qed





lemma extract_item_id_examples:
  "extract_item_id ''https://news.ycombinator.com/item?id=42616867'' = Inr ''42616867''"
  "extract_item_id ''https://news.ycombinator.com/item?id=12345&p=1'' = Inr ''12345''"
  "extract_item_id ''42616867'' = Inr ''42616867''"
  by (simp_all add: extract_item_id_def id_from_url_def index_def split_def)









lemma get_markdown_no_data:
  assumes "''data'' \<notin> set (map fst kvs)"
  shows "get_markdown (JObj kvs) =
     Inl (FirecrawlError ResponseError
            ([CHR 0x27] @ ''data' field not found in response. Response: '' @ py_repr (JObj kvs)))"
  using assms by (simp add: get_markdown_def)

lemma get_markdown_no_markdown:
  assumes "map_of kvs ''data'' = Some (JObj d)" and "''markdown'' \<notin> set (map fst d)"
  shows "get_markdown (JObj kvs) =
     Inl (FirecrawlError ResponseError
            ([CHR 0x27] @ ''markdown' field not found in data. Available fields: '' @
             py_repr (JArr (map JStr (map fst d)))))"
proof -
  from assms(1) have "''data'' \<in> set (map fst kvs)"
    by (metis map_of_eq_None_iff option.distinct(1) set_map)
  with assms show ?thesis by (simp add: get_markdown_def)
qed

lemma main_article_failed:
  assumes "cli_item_id hn_url = Inr item" "isdigit item" "parse item = Inr hn_data"
    and "external (story_url_of hn_data)"
    and "fetch_article (\<lambda>u. scrape u api_key) get_markdown (story_url_of hn_data) =
           Inl (FirecrawlError k m)"
  shows "main parse scrape hn_url compact api_key =
    \<lparr>stdout =
       [''Fetching HN comments for item '' @ item @ ''...'',
        ''Fetching content from: '' @ story_url_of hn_data] @
       print_result
         \<lparr>hn_comments = hn_data, url_content = JNull,
          story_url = Some (story_url_of hn_data),
          error = Some (''Failed to fetch URL content: '' @ m)\<rparr> compact,
     stderr = [], exit_code = 2\<rparr>"
  using assms
  by (simp add: main_def get_hn_content_def cli_item_id_def Let_def external_def
      story_url_of_def)

lemma middle_of_four: "\<exists>before after. a @ b @ c @ d = before @ c @ after"
  by (rule exI[of _ "a @ b"], rule exI[of _ d]) simp

lemma middle_of_five: "\<exists>before after. a @ b @ c @ d @ e = before @ d @ after"
  by (rule exI[of _ "a @ b @ c"], rule exI[of _ e]) simp

lemma print_result_compact:
  "\<exists>before after.
     print_result result True = before @ compact_comments (comments (hn_comments result)) @ after"
  unfolding print_result_def Let_def if_True by (rule middle_of_four)

lemma print_result_verbose:
  "\<exists>before after.
     print_result result False = before @ verbose_comments (comments (hn_comments result)) @ after"
  unfolding print_result_def Let_def if_False by (rule middle_of_five)

lemma main_missing_markdown:
  assumes item: "cli_item_id hn_url = Inr item" "isdigit item"
    and parsed: "parse item = Inr hn_data"
    and ext: "external (story_url_of hn_data)"
    and resp: "scrape (story_url_of hn_data) api_key = Inr (JObj kvs)"
    and missing: "''data'' \<notin> set (map fst kvs) \<or>
       (\<exists>d. map_of kvs ''data'' = Some (JObj d) \<and> ''markdown'' \<notin> set (map fst d))"
  shows "exit_code (main parse scrape hn_url compact api_key) = 2"
    and "stderr (main parse scrape hn_url compact api_key) = []"
    and "\<exists>before after.
           stdout (main parse scrape hn_url compact api_key) =
             before @
             (if compact then compact_comments (comments hn_data)
              else verbose_comments (comments hn_data)) @
             after"
proof -
  from missing obtain m where "get_markdown (JObj kvs) = Inl (FirecrawlError ResponseError m)"
    using get_markdown_no_data[of kvs] get_markdown_no_markdown[of kvs] by blast
  with resp
  have f: "fetch_article (\<lambda>u. scrape u api_key) get_markdown (story_url_of hn_data) =
           Inl (FirecrawlError ResponseError m)"
    by (simp add: fetch_article_def)
  note m = main_article_failed
    [of hn_url item parse hn_data scrape api_key ResponseError m compact, OF item parsed ext f]
  show "exit_code (main parse scrape hn_url compact api_key) = 2" unfolding m by simp
  show "stderr (main parse scrape hn_url compact api_key) = []" unfolding m by simp
  let ?r = "\<lparr>hn_comments = hn_data, url_content = JNull,
          story_url = Some (story_url_of hn_data),
          error = Some (''Failed to fetch URL content: '' @ m)\<rparr>"
  let ?p = "[''Fetching HN comments for item '' @ item @ ''...'',
        ''Fetching content from: '' @ story_url_of hn_data]"
  have "\<exists>before after. print_result ?r compact =
          before @
             (if compact then compact_comments (comments hn_data)
              else verbose_comments (comments hn_data)) @
             after"
    using print_result_compact[of ?r] print_result_verbose[of ?r] by (cases compact) simp_all
  then obtain b a where "print_result ?r compact =
          b @ (if compact then compact_comments (comments hn_data)
              else verbose_comments (comments hn_data)) @ a" by blast
  then have "stdout (main parse scrape hn_url compact api_key) =
          (?p @ b) @ (if compact then compact_comments (comments hn_data)
              else verbose_comments (comments hn_data)) @ a"
    unfolding m by simp
  then show "\<exists>before after.
           stdout (main parse scrape hn_url compact api_key) =
             before @
             (if compact then compact_comments (comments hn_data)
              else verbose_comments (comments hn_data)) @
             after" by blast
qed

section \<open>The claims\<close>

text \<open>
  Claim C3. For every record sequence whose depths increase by at most one level at a
  time and whose first record has depth 0, the builder returns a forest in which every
  node sits at the tree depth given by the depth of its source record: every node is the
  comment of an input record, carrying that record's depth as \<^verbatim>\<open>indent_level\<close>, roots are
  at depth 0 and the replies of a node at depth \<open>d\<close> are at depth \<open>d + 1\<close>. In particular
  four records of depths 0, 1, 1, 2 give one root whose replies are the second record,
  without replies, and the third, whose only reply is the fourth.
\<close>

theorem depth_stack_correctness:
  "(\<forall>rows ds. map get_indent_level rows = map Inr ds \<and> depth_incrementing ds \<longrightarrow>
      (\<exists>f. build_nested_structure rows = Inr f \<and> list_all (at_depth 0) f \<and>
           set (concat (map labels f)) \<subseteq> set (comments_of rows ds))) \<and>
   (\<forall>r1 r2 r3 r4.
      get_indent_level r1 = Inr 0 \<and> get_indent_level r2 = Inr 1 \<and>
      get_indent_level r3 = Inr 1 \<and> get_indent_level r4 = Inr 2 \<longrightarrow>
      build_nested_structure [r1, r2, r3, r4] =
        Inr [Node (make_comment r1 0)
               [Node (make_comment r2 1) [],
                Node (make_comment r3 1) [Node (make_comment r4 2) []]]])"
  using build_incrementing scenario by blast

theorem depth_stack_correctness_witness:
  "get_indent_level (sample_row ''1'' NoMarker) = Inr 0 \<and>
   get_indent_level (sample_row ''2'' (Width 40)) = Inr 1 \<and>
   get_indent_level (sample_row ''3'' (Width 40)) = Inr 1 \<and>
   get_indent_level (sample_row ''4'' (Width 80)) = Inr 2 \<and>
   depth_incrementing [0, 1, 1, 2] \<and>
   build_nested_structure
     [sample_row ''1'' NoMarker, sample_row ''2'' (Width 40), sample_row ''3'' (Width 40),
      sample_row ''4'' (Width 80)] =
     Inr [Node (sample_comment ''1'' 0)
            [Node (sample_comment ''2'' 1) [],
             Node (sample_comment ''3'' 1) [Node (sample_comment ''4'' 2) []]]] \<and>
   list_all (at_depth 0)
     [Node (sample_comment ''1'' 0)
        [Node (sample_comment ''2'' 1) [],
         Node (sample_comment ''3'' 1) [Node (sample_comment ''4'' 2) []]]]"
proof -
  let ?rows = "[sample_row ''1'' NoMarker, sample_row ''2'' (Width 40),
                sample_row ''3'' (Width 40), sample_row ''4'' (Width 80)]"
  have l: "map get_indent_level ?rows = map Inr [0, 1, 1, 2]" by simp
  have d: "depth_incrementing [0, 1, 1, 2]" by (simp add: depth_incrementing_def)
  from depth_stack_correctness l d
  obtain f where f: "build_nested_structure ?rows = Inr f" and a: "list_all (at_depth 0) f"
    by blast
  have s: "build_nested_structure ?rows =
     Inr [Node (sample_comment ''1'' 0)
            [Node (sample_comment ''2'' 1) [],
             Node (sample_comment ''3'' 1) [Node (sample_comment ''4'' 2) []]]]"
    using depth_stack_correctness[THEN conjunct2, rule_format,
        of "sample_row ''1'' NoMarker" "sample_row ''2'' (Width 40)"
           "sample_row ''3'' (Width 40)" "sample_row ''4'' (Width 80)"]
    by simp
  with f a d show ?thesis by simp
qed

text \<open>
  Claim C2. The claim, for every input sequence: roots have depth 0 and every other
  node's depth is its parent's depth plus one. A record of depth 2 right after a record
  of depth 0 becomes a reply of that record and keeps its depth 2, so the second part
  fails there.
\<close>

theorem tree_invariant_counterexample:
  "build_nested_structure [sample_row ''1'' NoMarker, sample_row ''2'' (Width 80)] =
     Inr [Node (sample_comment ''1'' 0) [Node (sample_comment ''2'' 2) []]] \<and>
   \<not> tree_invariant [Node (sample_comment ''1'' 0) [Node (sample_comment ''2'' 2) []]]"
  by (simp add: build_nested_structure_def step_def place_def Let_def slice_to_def
      append_reply_def init_def forest_of_def numeral_eq_Suc tree_invariant_def
      sample_comment_def)

text \<open>
  Claim C2, amended. For every input sequence on which the builder returns, every root
  has depth 0; and for every sequence whose depths start at 0 and increase by at most one
  level at a time, the builder returns a forest in which, moreover, every other node's
  depth is its parent's depth plus one.
\<close>

theorem tree_invariant_amended:
  "(\<forall>rows f. build_nested_structure rows = Inr f \<longrightarrow>
      list_all (\<lambda>t. indent_level (label t) = 0) f) \<and>
   (\<forall>rows ds. map get_indent_level rows = map Inr ds \<and> depth_incrementing ds \<longrightarrow>
      (\<exists>f. build_nested_structure rows = Inr f \<and> tree_invariant f))"
proof (intro conjI allI impI)
  fix rows f assume "build_nested_structure rows = Inr f"
  then show "list_all (\<lambda>t. indent_level (label t) = 0) f" by (rule build_roots_zero)
next
  fix rows ds
  assume "map get_indent_level rows = map Inr ds \<and> depth_incrementing ds"
  then obtain f where "build_nested_structure rows = Inr f" "list_all (at_depth 0) f"
    using build_incrementing by blast
  then show "\<exists>f. build_nested_structure rows = Inr f \<and> tree_invariant f"
    using at_depth_tree_invariant by blast
qed

theorem tree_invariant_amended_witness:
  "build_nested_structure [sample_row ''1'' NoMarker, sample_row ''2'' (Width 80)] =
     Inr [Node (sample_comment ''1'' 0) [Node (sample_comment ''2'' 2) []]] \<and>
   list_all (\<lambda>t. indent_level (label t) = 0)
     [Node (sample_comment ''1'' 0) [Node (sample_comment ''2'' 2) []]] \<and>
   map get_indent_level [sample_row ''1'' NoMarker, sample_row ''2'' (Width 40)] =
     map Inr [0, 1] \<and>
   depth_incrementing [0, 1] \<and>
   (\<exists>f. build_nested_structure [sample_row ''1'' NoMarker, sample_row ''2'' (Width 40)] =
          Inr f \<and> tree_invariant f)"
proof -
  have b: "build_nested_structure [sample_row ''1'' NoMarker, sample_row ''2'' (Width 80)] =
     Inr [Node (sample_comment ''1'' 0) [Node (sample_comment ''2'' 2) []]]"
    by (simp add: build_nested_structure_def step_def place_def Let_def slice_to_def
      append_reply_def init_def forest_of_def numeral_eq_Suc)
  have l: "map get_indent_level [sample_row ''1'' NoMarker, sample_row ''2'' (Width 40)] =
     map Inr [0, 1]" by simp
  have d: "depth_incrementing [0, 1]" by (simp add: depth_incrementing_def)
  from tree_invariant_amended b
  have r: "list_all (\<lambda>t. indent_level (label t) = 0)
     [Node (sample_comment ''1'' 0) [Node (sample_comment ''2'' 2) []]]" by blast
  from tree_invariant_amended l d
  have "\<exists>f. build_nested_structure [sample_row ''1'' NoMarker, sample_row ''2'' (Width 40)] =
          Inr f \<and> tree_invariant f" by blast
  with b l d r show ?thesis by blast
qed

text \<open>
  Claim C5. For every input sequence on which the builder returns, the top-level list of
  the forest and the replies list of every node of the forest are subsequences of the
  input sequence: siblings stand in their order of appearance in the input, and nothing
  re-sorts them.
\<close>

theorem order_preservation:
  assumes "build_nested_structure rows = Inr f"
  shows "\<exists>ds. map get_indent_level rows = map Inr ds \<and>
           subseq (map label f) (comments_of rows ds) \<and>
           (\<forall>t \<in> set (concat (map nodes_of f)).
              subseq (map label (kids t)) (comments_of rows ds))"
  using assms by (rule build_order)

theorem order_preservation_witness:
  "build_nested_structure
     [sample_row ''1'' NoMarker, sample_row ''2'' (Width 40), sample_row ''3'' (Width 40)] =
     Inr [Node (sample_comment ''1'' 0)
            [Node (sample_comment ''2'' 1) [], Node (sample_comment ''3'' 1) []]] \<and>
   subseq [sample_comment ''1'' 0]
     [sample_comment ''1'' 0, sample_comment ''2'' 1, sample_comment ''3'' 1] \<and>
   subseq [sample_comment ''2'' 1, sample_comment ''3'' 1]
     [sample_comment ''1'' 0, sample_comment ''2'' 1, sample_comment ''3'' 1]"
proof -
  let ?rows = "[sample_row ''1'' NoMarker, sample_row ''2'' (Width 40),
                sample_row ''3'' (Width 40)]"
  let ?root = "Node (sample_comment ''1'' 0)
                 [Node (sample_comment ''2'' 1) [], Node (sample_comment ''3'' 1) []]"
  from order_preservation[OF build_sample3]
  obtain ds where l: "map get_indent_level ?rows = map Inr ds"
    and top: "subseq (map label [?root]) (comments_of ?rows ds)"
    and sub: "\<forall>t \<in> set (concat (map nodes_of [?root])).
                subseq (map label (kids t)) (comments_of ?rows ds)" by blast
  from l have ds: "ds = [0, 1, 1]" by auto
  from sub have "subseq (map label (kids ?root)) (comments_of ?rows ds)" by simp
  with top show ?thesis unfolding ds by (simp add: comments_of_def build_sample3)
qed

text \<open>
  Claim C4. Let a record of depth greater than 0 arrive, after the records \<open>pre\<close>, when the
  ancestor stack cut to its depth is empty. Then no exception is raised: the builder
  returns for \<open>pre\<close> followed by the record the very forest it returns for \<open>pre\<close>. And
  whatever records follow, the dictionary made for the record (its address is its position
  in the input) is never in the top-level list nor in the replies of any dictionary.
\<close>

theorem malformed_depth_drop:
  assumes "run pre init = Inr st" and "get_indent_level r = Inr lvl" and "0 < lvl"
    and "slice_to lvl (comment_stack st) = []"
  shows "(\<exists>f. build_nested_structure pre = Inr f \<and> build_nested_structure (pre @ [r]) = Inr f) \<and>
         (\<forall>post st'. run (pre @ r # post) init = Inr st' \<longrightarrow>
            dict (heap st' ! length pre) = make_comment r lvl \<and>
            length pre \<notin> set (all_comments st') \<and>
            (\<forall>p < length (heap st'). length pre \<notin> set (replies (heap st' ! p))))"
proof (intro conjI allI impI)
  from assms(3) have nz: "lvl \<noteq> 0" by simp
  from build_drop[OF assms(1,2) nz assms(4)]
  show "\<exists>f. build_nested_structure pre = Inr f \<and> build_nested_structure (pre @ [r]) = Inr f"
    by auto
  fix post st' assume fin: "run (pre @ r # post) init = Inr st'"
  have "unreferenced (length pre) st'"
    using assms(1,2) nz assms(4) fin by (rule drop_unreferenced)
  then show "length pre \<notin> set (all_comments st')"
    and "\<And>p. p < length (heap st') \<Longrightarrow> length pre \<notin> set (replies (heap st' ! p))"
    unfolding unreferenced_def by blast+
  show "dict (heap st' ! length pre) = make_comment r lvl"
    using dict_run_init[OF fin, of "length pre" lvl] assms(2) by simp
qed

theorem malformed_depth_drop_witness:
  "run [] init = Inr init \<and>
   get_indent_level (sample_row ''9'' (Width 40)) = Inr 1 \<and> (0::int) < 1 \<and>
   slice_to 1 (comment_stack init) = [] \<and>
   build_nested_structure [sample_row ''9'' (Width 40)] = Inr [] \<and>
   run [sample_row ''9'' (Width 40), sample_row ''1'' NoMarker] init =
     Inr \<lparr>heap = [\<lparr>dict = sample_comment ''9'' 1, replies = []\<rparr>,
                  \<lparr>dict = sample_comment ''1'' 0, replies = []\<rparr>],
          all_comments = [1], comment_stack = [1]\<rparr> \<and>
   0 \<notin> set [1::nat]"
proof -
  have a: "run [] init = Inr init" by simp
  have b: "get_indent_level (sample_row ''9'' (Width 40)) = Inr 1" by simp
  have c: "(0::int) < 1" by simp
  have d: "slice_to 1 (comment_stack init) = []" by (simp add: init_def slice_to_def)
  have r: "run [sample_row ''9'' (Width 40), sample_row ''1'' NoMarker] init =
     Inr \<lparr>heap = [\<lparr>dict = sample_comment ''9'' 1, replies = []\<rparr>,
                  \<lparr>dict = sample_comment ''1'' 0, replies = []\<rparr>],
          all_comments = [1], comment_stack = [1]\<rparr>"
    by (simp add: step_def place_def Let_def slice_to_def init_def)
  from malformed_depth_drop[OF a b c d]
  have e: "\<exists>f. build_nested_structure [] = Inr f \<and>
              build_nested_structure ([] @ [sample_row ''9'' (Width 40)]) = Inr f"
    and f: "\<forall>post st'. run ([] @ sample_row ''9'' (Width 40) # post) init = Inr st' \<longrightarrow>
              length ([]::row list) \<notin> set (all_comments st')" by blast+
  have "build_nested_structure [] = Inr []"
    by (simp add: build_nested_structure_def forest_of_def init_def)
  with e have g: "build_nested_structure [sample_row ''9'' (Width 40)] = Inr []" by simp
  from f r have "0 \<notin> set [1::nat]" by simp
  with a b c d g r show ?thesis by blast
qed

text \<open>
  Claim C9. The sentinels are as claimed, but a row without text container does not
  always appear in the forest: like any other row it is dropped when its depth is greater
  than 0 and no ancestor is open. A page whose only comment row is deleted and indented
  one level gives the empty forest.
\<close>

theorem deleted_row_counterexample:
  "commtext (deleted_row ''7'' (Width 40)) = None \<and>
   build_nested_structure [deleted_row ''7'' (Width 40)] = Inr []"
proof
  show "commtext (deleted_row ''7'' (Width 40)) = None" by (simp add: deleted_row_def)
  show "build_nested_structure [deleted_row ''7'' (Width 40)] = Inr []"
    by (simp add: build_nested_structure_def step_def place_def Let_def slice_to_def
        init_def forest_of_def)
qed

text \<open>
  Claim C9, amended. For every comment row on which the builder returns: when the author
  element is missing the record's author is \<^verbatim>\<open>[deleted]\<close>; when the text container is
  missing its body is \<^verbatim>\<open>[deleted]\<close>; its depth is computed from the indentation marker
  all the same (width div 40, or 0 without a marker); and the record appears in the
  returned forest whenever its depth is 0 or the ancestor stack cut to its depth is not
  empty.
\<close>

theorem deleted_row_amended:
  assumes "run pre init = Inr st" and "build_nested_structure (pre @ r # post) = Inr f"
  shows "\<exists>lvl. get_indent_level r = Inr lvl \<and>
           (ind r = NoMarker \<longrightarrow> lvl = 0) \<and> (\<forall>w. ind r = Width w \<longrightarrow> lvl = w div 40) \<and>
           (hnuser r = None \<longrightarrow> c_author (make_comment r lvl) = ''[deleted]'') \<and>
           (commtext r = None \<longrightarrow> c_text (make_comment r lvl) = ''[deleted]'') \<and>
           (lvl = 0 \<or> slice_to lvl (comment_stack st) \<noteq> [] \<longrightarrow>
              make_comment r lvl \<in> set (concat (map labels f)))"
proof -
  from build_InrD[OF assms(2)] obtain st' where fin: "run (pre @ r # post) init = Inr st'"
    by blast
  with assms(1) have "run (r # post) st = Inr st'" by (simp add: run_append)
  from run_Cons_Inr[OF this] obtain lvl where lv: "get_indent_level r = Inr lvl" by blast
  have k: "lvl = 0 \<or> slice_to lvl (comment_stack st) \<noteq> [] \<longrightarrow>
          make_comment r lvl \<in> set (concat (map labels f))"
    using kept_in_forest[OF assms(1) lv _ assms(2)] by blast
  have m1: "ind r = NoMarker \<longrightarrow> lvl = 0" and m2: "\<forall>w. ind r = Width w \<longrightarrow> lvl = w div 40"
    using level_from_marker[OF lv] by blast+
  have s1: "hnuser r = None \<longrightarrow> c_author (make_comment r lvl) = ''[deleted]''"
    using sentinels(1)[of r lvl] by (rule impI)
  have s2: "commtext r = None \<longrightarrow> c_text (make_comment r lvl) = ''[deleted]''"
    using sentinels(2)[of r lvl] by (rule impI)
  show ?thesis
  proof (intro exI conjI)
    show "get_indent_level r = Inr lvl" by fact
  qed (fact m1 m2 s1 s2 k)+
qed

theorem deleted_row_amended_witness:
  "run [sample_row ''1'' NoMarker] init =
     Inr \<lparr>heap = [\<lparr>dict = sample_comment ''1'' 0, replies = []\<rparr>], all_comments = [0],
          comment_stack = [0]\<rparr> \<and>
   build_nested_structure [sample_row ''1'' NoMarker, deleted_row ''7'' (Width 40)] =
     Inr [Node (sample_comment ''1'' 0) [Node (deleted_comment ''7'' 1) []]] \<and>
   ind (deleted_row ''7'' (Width 40)) = Width 40 \<and>
   hnuser (deleted_row ''7'' (Width 40)) = None \<and>
   commtext (deleted_row ''7'' (Width 40)) = None \<and>
   slice_to 1 [0::nat] \<noteq> [] \<and>
   c_author (deleted_comment ''7'' 1) = ''[deleted]'' \<and>
   c_text (deleted_comment ''7'' 1) = ''[deleted]'' \<and>
   deleted_comment ''7'' 1 \<in>
     set (concat (map labels [Node (sample_comment ''1'' 0) [Node (deleted_comment ''7'' 1) []]]))"
proof -
  let ?st = "\<lparr>heap = [\<lparr>dict = sample_comment ''1'' 0, replies = []\<rparr>], all_comments = [0],
          comment_stack = [0]\<rparr>"
  let ?f = "[Node (sample_comment ''1'' 0) [Node (deleted_comment ''7'' 1) []]]"
  have a: "run [sample_row ''1'' NoMarker] init = Inr ?st"
    by (simp add: step_def place_def Let_def slice_to_def init_def)
  have b: "build_nested_structure ([sample_row ''1'' NoMarker] @ deleted_row ''7'' (Width 40) # [])
             = Inr ?f"
    by (simp add: build_nested_structure_def step_def place_def Let_def slice_to_def
      append_reply_def init_def forest_of_def numeral_eq_Suc deleted_comment_def)
  have c: "ind (deleted_row ''7'' (Width 40)) = Width 40"
    "hnuser (deleted_row ''7'' (Width 40)) = None"
    "commtext (deleted_row ''7'' (Width 40)) = None"
    by (simp_all add: deleted_row_def)
  have s: "slice_to 1 [0::nat] \<noteq> []" by (simp add: slice_to_def)
  from deleted_row_amended[OF a b] c s a b show ?thesis
    by (auto simp: deleted_comment_def)
qed

text \<open>
  Claim C1: the failing input. A thread of one top-level comment with one reply: the
  forest holds two comments, \<^verbatim>\<open>total_comments\<close> is 1.
\<close>

theorem total_comments_counts_roots_only:
  "parse_hn_comments
     (\<lambda>url. Inr (sample_page [sample_row ''1'' NoMarker, sample_row ''2'' (Width 40)]))
     ''1'' =
   Inr \<lparr>story = sample_story,
        comments = [Node (sample_comment ''1'' 0) [Node (sample_comment ''2'' 1) []]],
        total_comments = 1\<rparr> \<and>
   sum_list (map count_nodes [Node (sample_comment ''1'' 0) [Node (sample_comment ''2'' 1) []]])
     = 2"
  by (simp add: parse_hn_comments_def extract_comments_eq build_sample2)








text \<open>
  Claim C7: the failing input. The thread has one top-level comment and links to an
  article; the scrape succeeds with the response \<^verbatim>\<open>{"success": true, "data": null}\<close>, which
  has no markdown field. \<^verbatim>\<open>get_markdown\<close> raises \<^verbatim>\<open>TypeError\<close>, which \<^verbatim>\<open>get_hn_content\<close> does
  not catch: the process prints the two progress lines and no discussion, reports an
  unexpected error and exits with code 1.
\<close>

theorem missing_markdown_null_data:
  "main (parse_hn_comments (\<lambda>url. Inr (sample_page [sample_row ''1'' NoMarker])))
     (scrape_url (Some ''fc-key'')
        (\<lambda>url key. HResponse (Some (JObj [(''success'', JBool True), (''data'', JNull)])) [] []))
     ''1'' False None =
   \<lparr>stdout = [''Fetching HN comments for item 1...'',
              ''Fetching content from: https://example.com/a''],
    stderr = [''Unexpected error: argument of type 'NoneType' is not iterable''],
    exit_code = 1\<rparr>"
proof -
  have b: "build_nested_structure [sample_row ''1'' NoMarker] = Inr [Node (sample_comment ''1'' 0) []]"
    by (simp add: build_nested_structure_def step_def place_def Let_def slice_to_def
        init_def forest_of_def)
  have p: "parse_hn_comments (\<lambda>url. Inr (sample_page [sample_row ''1'' NoMarker])) ''1'' =
           Inr \<lparr>story = sample_story, comments = [Node (sample_comment ''1'' 0) []],
                total_comments = 1\<rparr>"
    by (simp add: parse_hn_comments_def extract_comments_eq b)
  have s: "scrape_url (Some ''fc-key'')
        (\<lambda>url key. HResponse (Some (JObj [(''success'', JBool True), (''data'', JNull)])) [] [])
        ''https://example.com/a'' None =
        Inr (JObj [(''success'', JBool True), (''data'', JNull)])"
    by (simp add: scrape_url_def)
  have g: "get_markdown (JObj [(''success'', JBool True), (''data'', JNull)]) =
        Inl (TypeError ''argument of type 'NoneType' is not iterable'')"
    by (simp add: get_markdown_def)
  have f: "fetch_article
        (\<lambda>u. scrape_url (Some ''fc-key'')
           (\<lambda>url key. HResponse (Some (JObj [(''success'', JBool True), (''data'', JNull)])) [] [])
           u None)
        get_markdown ''https://example.com/a'' =
        Inl (TypeError ''argument of type 'NoneType' is not iterable'')"
    by (simp add: fetch_article_def s g)
  show ?thesis
    unfolding main_def get_hn_content_def
    by (simp add: p f Let_def strip_def is_space_def isdigit_def contains_def
        startswith_def sample_story_def)
qed

end
